theory Spec2Isabelle
  imports Main "HOL-Library.Multiset"
begin

section \<open>Data model\<close>

text \<open>
  The two source files, \<^verbatim>\<open>laberinto.py\<close> and \<^verbatim>\<open>laberintoFinal.py\<close>, share the classes
  \<^verbatim>\<open>Node\<close>, \<^verbatim>\<open>StackFrontier\<close>, \<^verbatim>\<open>QueueFrontier\<close> and the constructor and
  \<^verbatim>\<open>neighbors\<close> method of \<^verbatim>\<open>Maze\<close>. \<^verbatim>\<open>laberintoFinal.py\<close> adds \<^verbatim>\<open>GreedyFrontier\<close>,
  \<^verbatim>\<open>AStarFrontier\<close> and \<^verbatim>\<open>Maze.step\<close>, and replaces the body of \<^verbatim>\<open>Maze.solve\<close>.

  A cell is a pair of Python integers (row, column). Exceptions are values of the type
  \<open>error\<close>; a method that can raise returns \<open>error + result\<close>, and the object it mutates
  is passed in and returned. The text of a maze is a list of characters; each character
  stands for one code point below 256.
\<close>

type_synonym cell = "int \<times> int"

datatype node = Node (state: cell) (parent: "node option") (action: "string option")

datatype error = EmptyFrontier | InvalidMaze | IndexError | KeyError | ValueError | AttributeError

text \<open>
  The four frontier classes. \<open>StackFrontier\<close> and \<open>QueueFrontier\<close> hold their list
  \<^verbatim>\<open>self.frontier\<close>; \<open>GreedyFrontier\<close> holds the list of (priority, node) pairs and
  \<^verbatim>\<open>self.goal\<close>; \<open>AStarFrontier\<close> holds the list of (f, node) pairs, \<^verbatim>\<open>self.goal\<close>,
  \<^verbatim>\<open>self.start\<close> and the dictionary \<^verbatim>\<open>self.g_costs\<close>.
\<close>

datatype frontier =
    StackFrontier "node list"
  | QueueFrontier "node list"
  | GreedyFrontier "(int \<times> node) list" cell
  | AStarFrontier "(int \<times> node) list" cell cell "cell \<rightharpoonup> int"

record maze =
  height :: int
  width :: int
  walls :: "bool list list"
  start :: cell
  goal :: cell
  solution :: "(string option list \<times> cell list) option"
  player_pos :: cell
  num_explored :: int
  solution_found :: bool
  explored :: "cell set"
  frontier_nodes :: "node list"

section \<open>Frontiers\<close>

text \<open>The constructors \<^verbatim>\<open>GreedyFrontier(goal)\<close> and \<^verbatim>\<open>AStarFrontier(start, goal)\<close>.\<close>

definition GreedyFrontier_init :: "cell \<Rightarrow> frontier" where
  "GreedyFrontier_init g = GreedyFrontier [] g"

definition AStarFrontier_init :: "cell \<Rightarrow> cell \<Rightarrow> frontier" where
  "AStarFrontier_init s g = AStarFrontier [] g s [s \<mapsto> 0]"

text \<open>
  \<^verbatim>\<open>abs(node.state[0] - self.goal[0]) + abs(node.state[1] - self.goal[1])\<close>, the
  heuristic both \<^verbatim>\<open>GreedyFrontier.add\<close> and \<^verbatim>\<open>AStarFrontier.add\<close> compute.
\<close>

definition manhattan :: "cell \<Rightarrow> cell \<Rightarrow> int" where
  "manhattan s g = \<bar>fst s - fst g\<bar> + \<bar>snd s - snd g\<bar>"

text \<open>
  \<^verbatim>\<open>add\<close>. Python's \<^verbatim>\<open>list.sort(key=...)\<close> is a stable sort; \<open>sort_key\<close> is one too, and
  a stable sort has one result. In \<open>AStarFrontier\<close> the lookup
  \<^verbatim>\<open>self.g_costs[node.parent.state]\<close> raises \<^verbatim>\<open>KeyError\<close> for a missing key, before the
  frontier is changed.
\<close>

fun add :: "frontier \<Rightarrow> node \<Rightarrow> error + frontier" where
  "add (StackFrontier xs) n = Inr (StackFrontier (xs @ [n]))"
| "add (QueueFrontier xs) n = Inr (QueueFrontier (xs @ [n]))"
| "add (GreedyFrontier xs gl) n =
     (let priority = manhattan (state n) gl
      in Inr (GreedyFrontier (sort_key fst (xs @ [(priority, n)])) gl))"
| "add (AStarFrontier xs gl st gc) n =
     (case (case parent n of
              None \<Rightarrow> Inr 0
            | Some p \<Rightarrow> (case gc (state p) of None \<Rightarrow> Inl KeyError | Some gp \<Rightarrow> Inr (gp + 1))) of
        Inl e \<Rightarrow> Inl e
      | Inr g \<Rightarrow>
          (let h = manhattan (state n) gl; f = g + h
           in Inr (AStarFrontier (sort_key fst (xs @ [(f, n)])) gl st (gc(state n \<mapsto> g)))))"

fun contains_state :: "frontier \<Rightarrow> cell \<Rightarrow> bool" where
  "contains_state (StackFrontier xs) s = (\<exists>n \<in> set xs. state n = s)"
| "contains_state (QueueFrontier xs) s = (\<exists>n \<in> set xs. state n = s)"
| "contains_state (GreedyFrontier xs gl) s = (\<exists>(k, n) \<in> set xs. state n = s)"
| "contains_state (AStarFrontier xs gl st gc) s = (\<exists>(k, n) \<in> set xs. state n = s)"

fun empty :: "frontier \<Rightarrow> bool" where
  "empty (StackFrontier xs) = (xs = [])"
| "empty (QueueFrontier xs) = (xs = [])"
| "empty (GreedyFrontier xs gl) = (length xs = 0)"
| "empty (AStarFrontier xs gl st gc) = (length xs = 0)"

text \<open>
  \<^verbatim>\<open>remove\<close>: \<^verbatim>\<open>pop()\<close> takes the last element of the stack's list, \<^verbatim>\<open>popleft()\<close> the
  first of the queue's, \<^verbatim>\<open>pop(0)[1]\<close> the node of the first pair.
\<close>

fun remove :: "frontier \<Rightarrow> error + node \<times> frontier" where
  "remove (StackFrontier xs) =
     (if empty (StackFrontier xs) then Inl EmptyFrontier
      else Inr (last xs, StackFrontier (butlast xs)))"
| "remove (QueueFrontier xs) =
     (if empty (QueueFrontier xs) then Inl EmptyFrontier
      else Inr (hd xs, QueueFrontier (tl xs)))"
| "remove (GreedyFrontier xs gl) =
     (if empty (GreedyFrontier xs gl) then Inl EmptyFrontier
      else Inr (snd (hd xs), GreedyFrontier (tl xs) gl))"
| "remove (AStarFrontier xs gl st gc) =
     (if empty (AStarFrontier xs gl st gc) then Inl EmptyFrontier
      else Inr (snd (hd xs), AStarFrontier (tl xs) gl st gc))"

section \<open>The maze\<close>

text \<open>
  \<^verbatim>\<open>str.splitlines()\<close>: the text is cut at every line boundary (\<^verbatim>\<open>\n\<close>, \<^verbatim>\<open>\r\<close>, \<^verbatim>\<open>\r\n\<close>,
  \<^verbatim>\<open>\v\<close>, \<^verbatim>\<open>\f\<close>, \<^verbatim>\<open>\x1c\<close>, \<^verbatim>\<open>\x1d\<close>, \<^verbatim>\<open>\x1e\<close>, \<^verbatim>\<open>\x85\<close>), the boundaries are dropped, and
  a boundary at the very end opens no further line.
\<close>

definition linebreak :: "char \<Rightarrow> bool" where
  "linebreak c = (c \<in> set [CHR 0x0A, CHR 0x0B, CHR 0x0C, CHR 0x0D, CHR 0x1C, CHR 0x1D, CHR 0x1E, CHR 0x85])"

fun splitlines_from :: "string \<Rightarrow> string \<Rightarrow> string list" where
  "splitlines_from cur [] = (if cur = [] then [] else [cur])"
| "splitlines_from cur [c] = (if linebreak c then [cur] else [cur @ [c]])"
| "splitlines_from cur (c # d # cs) =
     (if c = CHR 0x0D \<and> d = CHR 0x0A then cur # splitlines_from [] cs
      else if linebreak c then cur # splitlines_from [] (d # cs)
      else splitlines_from (cur @ [c]) (d # cs))"

definition splitlines :: "string \<Rightarrow> string list" where
  "splitlines s = splitlines_from [] s"

text \<open>
  \<^verbatim>\<open>[(i, j) for i, line in enumerate(contents) for j, cell in enumerate(line) if cell == ch]\<close>
\<close>

definition positions :: "char \<Rightarrow> string list \<Rightarrow> cell list" where
  "positions ch ls =
     concat (map (\<lambda>(i, line). map (\<lambda>(j, cell). (int i, int j))
                                   (filter (\<lambda>(j, cell). cell = ch) (enumerate 0 line)))
                 (enumerate 0 ls))"

text \<open>
  \<^verbatim>\<open>Maze.__init__\<close>, from the text read from the file. \<^verbatim>\<open>max\<close> of no line raises
  \<^verbatim>\<open>ValueError\<close> and \<^verbatim>\<open>[...][0]\<close> on an empty list raises \<^verbatim>\<open>IndexError\<close>.
  The constructor of \<^verbatim>\<open>laberinto.py\<close> is the same up to \<^verbatim>\<open>player_pos\<close>; the four fields
  after it are created by its \<^verbatim>\<open>solve\<close>.
\<close>

definition maze_init :: "string \<Rightarrow> error + maze" where
  "maze_init contents =
     (if count_list contents CHR ''A'' \<noteq> 1 \<or> count_list contents CHR ''B'' \<noteq> 1
      then Inl InvalidMaze
      else
        (let ls = splitlines contents in
         (case map (\<lambda>line. int (length line)) ls of
            [] \<Rightarrow> Inl ValueError
          | w # ws \<Rightarrow>
              (case positions CHR ''A'' ls of
                 [] \<Rightarrow> Inl IndexError
               | s # _ \<Rightarrow>
                   (case positions CHR ''B'' ls of
                      [] \<Rightarrow> Inl IndexError
                    | g # _ \<Rightarrow>
                        Inr \<lparr> height = int (length ls),
                              width = fold max ws w,
                              walls = map (map (\<lambda>cell. cell \<noteq> CHR '' '' \<and> cell \<noteq> CHR ''A'' \<and> cell \<noteq> CHR ''B'')) ls,
                              start = s,
                              goal = g,
                              solution = None,
                              player_pos = s,
                              num_explored = 0,
                              solution_found = False,
                              explored = {},
                              frontier_nodes = [] \<rparr>)))))"

text \<open>
  \<^verbatim>\<open>xs[i]\<close> on a Python list: a negative index counts from the end, an index out of range
  raises \<^verbatim>\<open>IndexError\<close>.
\<close>

definition py_index :: "'a list \<Rightarrow> int \<Rightarrow> error + 'a" where
  "py_index xs i =
     (if - int (length xs) \<le> i \<and> i < int (length xs)
      then Inr (xs ! nat (if 0 \<le> i then i else i + int (length xs)))
      else Inl IndexError)"

text \<open>\<^verbatim>\<open>self.walls[r][c]\<close>\<close>

definition wall_at :: "maze \<Rightarrow> int \<Rightarrow> int \<Rightarrow> error + bool" where
  "wall_at m r c = (case py_index (walls m) r of Inl e \<Rightarrow> Inl e | Inr row \<Rightarrow> py_index row c)"

text \<open>
  The comprehension of \<^verbatim>\<open>neighbors\<close>: a candidate is kept when
  \<^verbatim>\<open>0 <= r < self.height and 0 <= c < self.width and not self.walls[r][c]\<close>; the
  conjunction is evaluated left to right, so the grid is read only for a candidate that
  passed the two range tests.
\<close>

fun keep_candidates :: "maze \<Rightarrow> (string \<times> cell) list \<Rightarrow> error + (string \<times> cell) list" where
  "keep_candidates m [] = Inr []"
| "keep_candidates m ((a, (r, c)) # rest) =
     (if 0 \<le> r \<and> r < height m \<and> 0 \<le> c \<and> c < width m then
        (case wall_at m r c of
           Inl e \<Rightarrow> Inl e
         | Inr w \<Rightarrow>
             (case keep_candidates m rest of
                Inl e \<Rightarrow> Inl e
              | Inr ys \<Rightarrow> Inr (if \<not> w then (a, (r, c)) # ys else ys)))
      else keep_candidates m rest)"

definition neighbors :: "maze \<Rightarrow> cell \<Rightarrow> error + (string \<times> cell) list" where
  "neighbors m s =
     (let row = fst s; col = snd s;
          candidates = [(''up'', (row - 1, col)), (''down'', (row + 1, col)),
                        (''left'', (row, col - 1)), (''right'', (row, col + 1))]
      in keep_candidates m candidates)"

text \<open>The dictionary of \<^verbatim>\<open>move_player\<close>, read with \<^verbatim>\<open>.get(direction)\<close>.\<close>

definition new_pos :: "cell \<Rightarrow> string \<Rightarrow> cell option" where
  "new_pos p direction =
     (let row = fst p; col = snd p in
      if direction = ''up'' then Some (row - 1, col)
      else if direction = ''down'' then Some (row + 1, col)
      else if direction = ''left'' then Some (row, col - 1)
      else if direction = ''right'' then Some (row, col + 1)
      else None)"

definition move_player :: "maze \<Rightarrow> string \<Rightarrow> error + maze" where
  "move_player m direction =
     (case new_pos (player_pos m) direction of
        None \<Rightarrow> Inr m
      | Some (r, c) \<Rightarrow>
          (if 0 \<le> r \<and> r < height m \<and> 0 \<le> c \<and> c < width m then
             (case wall_at m r c of
                Inl e \<Rightarrow> Inl e
              | Inr w \<Rightarrow> Inr (if \<not> w then m\<lparr>player_pos := (r, c)\<rparr> else m))
           else Inr m))"

section \<open>The search driver\<close>

text \<open>
  The inner loop \<^verbatim>\<open>while node.parent: ...\<close> of both drivers: actions and cells from the
  goal node back to the node with no parent, which is left out. The lists are in the
  order of the \<^verbatim>\<open>append\<close> calls; the callers reverse them.
\<close>

fun trace_back :: "node \<Rightarrow> string option list \<times> cell list" where
  "trace_back (Node s None a) = ([], [])"
| "trace_back (Node s (Some p) a) = (let (actions, cells) = trace_back p in (a # actions, s # cells))"

text \<open>
  The \<^verbatim>\<open>for action, state in self.neighbors(node.state)\<close> loop of \<^verbatim>\<open>laberinto.py\<close>:
  \<^verbatim>\<open>contains_state\<close> is asked of the frontier as the loop has changed it so far.
\<close>

fun add_neighbors :: "frontier \<Rightarrow> cell set \<Rightarrow> node \<Rightarrow> (string \<times> cell) list \<Rightarrow> error + frontier" where
  "add_neighbors fr ex nd [] = Inr fr"
| "add_neighbors fr ex nd ((a, s) # rest) =
     (if \<not> contains_state fr s \<and> s \<notin> ex then
        (case add fr (Node s (Some nd) (Some a)) of
           Inl e \<Rightarrow> Inl e
         | Inr fr' \<Rightarrow> add_neighbors fr' ex nd rest)
      else add_neighbors fr ex nd rest)"

text \<open>
  The same loop in \<^verbatim>\<open>step\<close> of \<^verbatim>\<open>laberintoFinal.py\<close>, which also appends each child to
  \<^verbatim>\<open>self.frontier_nodes\<close>.
\<close>

fun add_children :: "frontier \<Rightarrow> node list \<Rightarrow> cell set \<Rightarrow> node \<Rightarrow> (string \<times> cell) list
    \<Rightarrow> error + frontier \<times> node list" where
  "add_children fr fns ex nd [] = Inr (fr, fns)"
| "add_children fr fns ex nd ((a, s) # rest) =
     (if \<not> contains_state fr s \<and> s \<notin> ex then
        (let child = Node s (Some nd) (Some a) in
         case add fr child of
           Inl e \<Rightarrow> Inl e
         | Inr fr' \<Rightarrow> add_children fr' (fns @ [child]) ex nd rest)
      else add_children fr fns ex nd rest)"

text \<open>
  \<^verbatim>\<open>Maze.step\<close> of \<^verbatim>\<open>laberintoFinal.py\<close>. The result is the returned boolean with the maze
  and the frontier as the call leaves them; when the call raises, the result is the
  exception alone.
\<close>

definition step :: "maze \<Rightarrow> frontier \<Rightarrow> error + bool \<times> maze \<times> frontier" where
  "step m fr =
     (if \<not> empty fr then
        (case remove fr of
           Inl e \<Rightarrow> Inl e
         | Inr (nd, fr1) \<Rightarrow>
             (let m1 = m\<lparr>num_explored := num_explored m + 1\<rparr> in
              if state nd = goal m1 then
                (let (actions, cells) = trace_back nd
                 in Inr (True, m1\<lparr>solution := Some (rev actions, rev cells), solution_found := True\<rparr>, fr1))
              else
                (let m2 = m1\<lparr>explored := insert (state nd) (explored m1)\<rparr>;
                     m3 = m2\<lparr>frontier_nodes := []\<rparr>
                 in case neighbors m3 (state nd) of
                      Inl e \<Rightarrow> Inl e
                    | Inr nbs \<Rightarrow>
                        (case add_children fr1 (frontier_nodes m3) (explored m3) nd nbs of
                           Inl e \<Rightarrow> Inl e
                         | Inr (fr2, fns) \<Rightarrow> Inr (False, m3\<lparr>frontier_nodes := fns\<rparr>, fr2)))))
      else Inr (False, m, fr))"

text \<open>
  \<^verbatim>\<open>Maze.solve\<close> of \<^verbatim>\<open>laberintoFinal.py\<close>: it prepares the search and has no
  \<^verbatim>\<open>return\<close> statement, so the call evaluates to Python's \<^verbatim>\<open>None\<close>. The returned value
  of both versions of \<^verbatim>\<open>solve\<close> is modelled as a \<open>bool option\<close>, \<open>None\<close> for \<^verbatim>\<open>None\<close>.
\<close>

definition solve_final :: "maze \<Rightarrow> frontier \<Rightarrow> error + bool option \<times> maze \<times> frontier" where
  "solve_final m fr =
     (let m1 = m\<lparr>num_explored := 0\<rparr>;
          start_node = Node (start m1) None None
      in case add fr start_node of
           Inl e \<Rightarrow> Inl e
         | Inr fr1 \<Rightarrow>
             Inr (None,
                  m1\<lparr>explored := {}, solution_found := False, solution := None, frontier_nodes := []\<rparr>,
                  fr1))"

text \<open>
  The \<^verbatim>\<open>while not frontier.empty()\<close> loop of \<^verbatim>\<open>Maze.solve\<close> in \<^verbatim>\<open>laberinto.py\<close>, with
  the \<^verbatim>\<open>return False\<close> that follows it. A run of the loop that never ends is \<open>None\<close>.
\<close>

partial_function (option) solve_loop :: "maze \<Rightarrow> frontier \<Rightarrow> (error + bool option \<times> maze \<times> frontier) option" where
  "solve_loop m fr =
     (if \<not> empty fr then
        (case remove fr of
           Inl e \<Rightarrow> Some (Inl e)
         | Inr (nd, fr1) \<Rightarrow>
             (let m1 = m\<lparr>num_explored := num_explored m + 1\<rparr> in
              if state nd = goal m1 then
                (let (actions, cells) = trace_back nd
                 in Some (Inr (Some True, m1\<lparr>solution := Some (rev actions, rev cells)\<rparr>, fr1)))
              else
                (let m2 = m1\<lparr>explored := insert (state nd) (explored m1)\<rparr>
                 in case neighbors m2 (state nd) of
                      Inl e \<Rightarrow> Some (Inl e)
                    | Inr nbs \<Rightarrow>
                        (case add_neighbors fr1 (explored m2) nd nbs of
                           Inl e \<Rightarrow> Some (Inl e)
                         | Inr fr2 \<Rightarrow> solve_loop m2 fr2))))
      else Some (Inr (Some False, m, fr)))"

declare solve_loop.simps [code]

text \<open>\<^verbatim>\<open>Maze.solve\<close> of \<^verbatim>\<open>laberinto.py\<close>.\<close>

definition solve :: "maze \<Rightarrow> frontier \<Rightarrow> (error + bool option \<times> maze \<times> frontier) option" where
  "solve m fr =
     (let m1 = m\<lparr>num_explored := 0\<rparr>;
          start_node = Node (start m1) None None
      in case add fr start_node of
           Inl e \<Rightarrow> Some (Inl e)
         | Inr fr1 \<Rightarrow> solve_loop (m1\<lparr>explored := {}\<rparr>) fr1)"

text \<open>
  \<^verbatim>\<open>solve_dfs\<close> and \<^verbatim>\<open>solve_bfs\<close> of \<^verbatim>\<open>laberinto.py\<close>, the only callers of its
  \<^verbatim>\<open>solve\<close>: each makes a new frontier and returns what \<^verbatim>\<open>solve\<close> returns.
\<close>

definition solve_dfs :: "maze \<Rightarrow> (error + bool option \<times> maze \<times> frontier) option" where
  "solve_dfs m = solve m (StackFrontier [])"

definition solve_bfs :: "maze \<Rightarrow> (error + bool option \<times> maze \<times> frontier) option" where
  "solve_bfs m = solve m (QueueFrontier [])"

text \<open>
  \<^verbatim>\<open>solve_greedy\<close> and \<^verbatim>\<open>solve_a_star\<close> of \<^verbatim>\<open>laberintoFinal.py\<close>: the frontier they make
  is a local variable, lost when the method returns; what remains is the maze as
  \<^verbatim>\<open>solve\<close> left it.
\<close>

definition solve_greedy :: "maze \<Rightarrow> error + maze" where
  "solve_greedy m =
     (let frontier = GreedyFrontier_init (goal m)
      in case solve_final m frontier of Inl e \<Rightarrow> Inl e | Inr (r, m', fr') \<Rightarrow> Inr m')"

definition solve_a_star :: "maze \<Rightarrow> error + maze" where
  "solve_a_star m =
     (let frontier = AStarFrontier_init (start m) (goal m)
      in case solve_final m frontier of Inl e \<Rightarrow> Inl e | Inr (r, m', fr') \<Rightarrow> Inr m')"

text \<open>
  The two menus of \<^verbatim>\<open>main\<close> in \<^verbatim>\<open>laberintoFinal.py\<close>, on the variables \<^verbatim>\<open>maze\<close> and
  \<^verbatim>\<open>frontier\<close> (\<^verbatim>\<open>frontier = None\<close> at first). The four entries of the first menu are the
  values of \<open>strategy\<close>. Choosing one of the first two assigns a new frontier to
  \<^verbatim>\<open>frontier\<close>; choosing \<^verbatim>\<open>'Greedy'\<close> or \<^verbatim>\<open>'A*'\<close> calls \<^verbatim>\<open>maze.solve_greedy()\<close> or
  \<^verbatim>\<open>maze.solve_a_star()\<close> and assigns nothing; then, in all four cases,
  \<^verbatim>\<open>maze.solve(frontier)\<close> is called, which raises \<^verbatim>\<open>AttributeError\<close> when
  \<^verbatim>\<open>frontier\<close> is \<^verbatim>\<open>None\<close>, and \<^verbatim>\<open>solving\<close> is set, so that the frames that follow call
  \<^verbatim>\<open>maze.step(frontier)\<close>. Choosing an entry of the second menu assigns
  \<^verbatim>\<open>Maze(file)\<close> to \<^verbatim>\<open>maze\<close>, here from the text of the file, and leaves \<^verbatim>\<open>frontier\<close>
  as it is.
\<close>

datatype strategy = Profundidad | Amplitud | Greedy | A_star

definition solve_selected :: "strategy \<Rightarrow> maze \<Rightarrow> frontier option \<Rightarrow> error + maze \<times> frontier option" where
  "solve_selected choice m frontier =
     (case (case choice of
              Profundidad \<Rightarrow> Inr (m, Some (StackFrontier []))
            | Amplitud \<Rightarrow> Inr (m, Some (QueueFrontier []))
            | Greedy \<Rightarrow> (case solve_greedy m of Inl e \<Rightarrow> Inl e | Inr m' \<Rightarrow> Inr (m', frontier))
            | A_star \<Rightarrow> (case solve_a_star m of Inl e \<Rightarrow> Inl e | Inr m' \<Rightarrow> Inr (m', frontier))) of
        Inl e \<Rightarrow> Inl e
      | Inr (m1, frontier1) \<Rightarrow>
          (case frontier1 of
             None \<Rightarrow> Inl AttributeError
           | Some fr \<Rightarrow>
               (case solve_final m1 fr of
                  Inl e \<Rightarrow> Inl e
                | Inr (r, m2, fr2) \<Rightarrow> Inr (m2, Some fr2))))"

definition maze_selected :: "string \<Rightarrow> frontier option \<Rightarrow> error + maze \<times> frontier option" where
  "maze_selected contents frontier =
     (case maze_init contents of Inl e \<Rightarrow> Inl e | Inr m \<Rightarrow> Inr (m, frontier))"

text \<open>
  The caller of \<^verbatim>\<open>step\<close> in \<^verbatim>\<open>main\<close> of \<^verbatim>\<open>laberintoFinal.py\<close> calls it once per frame for
  as long as it has returned \<^verbatim>\<open>False\<close>: \<open>steps k\<close> is \<open>k\<close> such calls, stopping at the
  first that returns \<^verbatim>\<open>True\<close> or raises.
\<close>

fun steps :: "nat \<Rightarrow> maze \<Rightarrow> frontier \<Rightarrow> error + bool \<times> maze \<times> frontier" where
  "steps 0 m fr = Inr (False, m, fr)"
| "steps (Suc k) m fr =
     (case step m fr of
        Inl e \<Rightarrow> Inl e
      | Inr (found, m', fr') \<Rightarrow> (if found then Inr (True, m', fr') else steps k m' fr'))"

section \<open>Properties of the frontiers\<close>

text \<open>A sequence of \<^verbatim>\<open>add\<close> calls, stopping at the first that raises.\<close>

fun adds :: "frontier \<Rightarrow> node list \<Rightarrow> error + frontier" where
  "adds fr [] = Inr fr"
| "adds fr (n # ns) = (case add fr n of Inl e \<Rightarrow> Inl e | Inr fr' \<Rightarrow> adds fr' ns)"

text \<open>
  The only lookup of \<^verbatim>\<open>add\<close> that can fail: in an \<open>AStarFrontier\<close>, the state of the
  node's parent must be a key of \<^verbatim>\<open>g_costs\<close>.
\<close>

definition parent_known :: "frontier \<Rightarrow> node \<Rightarrow> bool" where
  "parent_known fr n =
     (case fr of
        AStarFrontier xs gl st gc \<Rightarrow> (case parent n of None \<Rightarrow> True | Some p \<Rightarrow> gc (state p) \<noteq> None)
      | _ \<Rightarrow> True)"

text \<open>
  The attribute \<^verbatim>\<open>g_costs\<close> of an \<open>AStarFrontier\<close> (the other classes have none), and
  the cost it records for a state after a sequence of \<^verbatim>\<open>add\<close> calls.
\<close>

definition g_costs :: "frontier \<Rightarrow> (cell \<rightharpoonup> int)" where
  "g_costs fr = (case fr of AStarFrontier xs gl st gc \<Rightarrow> gc | _ \<Rightarrow> Map.empty)"

definition recorded_g :: "error + frontier \<Rightarrow> cell \<Rightarrow> int option" where
  "recorded_g r s = (case r of Inl e \<Rightarrow> None | Inr fr \<Rightarrow> g_costs fr s)"

text \<open>Two pairs of equal f, as an example of a frontier's content in the order of insertion.\<close>

definition example_entries :: "(int \<times> node) list" where
  "example_entries =
     [(3, Node (0, 0) None None), (3, Node (0, 1) (Some (Node (0, 0) None None)) (Some ''right''))]"

subsection \<open>Stable sorting\<close>

lemma sort_key_resort:
  "sort_key f (sort_key f es @ [x]) = sort_key f (es @ [x])"
proof (rule properties_for_sort_key [symmetric])
  show "mset (sort_key f (sort_key f es @ [x])) = mset (es @ [x])" by simp
  show "sorted (map f (sort_key f (sort_key f es @ [x])))" by simp
  fix k
  show "filter (\<lambda>y. f k = f y) (sort_key f (sort_key f es @ [x])) = filter (\<lambda>y. f k = f y) (es @ [x])"
    by (simp add: sort_key_stable eq_commute)
qed

lemma hd_insort_key:
  "hd (insort_key f x ys) = (if ys = [] \<or> f x \<le> f (hd ys) then x else hd ys)"
  by (cases ys) auto

lemma sort_key_eq_Nil [simp]: "sort_key f xs = [] \<longleftrightarrow> xs = []"
  by (metis length_0_conv length_sort)

text \<open>The head of a stable sort is the first element, in the order given, of least key.\<close>

lemma hd_sort_key_first_min:
  "xs \<noteq> [] \<Longrightarrow>
   \<exists>i<length xs. hd (sort_key f xs) = xs ! i \<and> (\<forall>j<length xs. f (xs ! i) \<le> f (xs ! j))
      \<and> (\<forall>j<i. f (xs ! i) < f (xs ! j))"
proof (induction xs)
  case Nil
  then show ?case by simp
next
  case (Cons x xs)
  show ?case
  proof (cases "xs = []")
    case True
    then show ?thesis by simp
  next
    case False
    with Cons.IH obtain i where i: "i < length xs" "hd (sort_key f xs) = xs ! i"
      "\<forall>j<length xs. f (xs ! i) \<le> f (xs ! j)" "\<forall>j<i. f (xs ! i) < f (xs ! j)"
      by blast
    show ?thesis
    proof (cases "f x \<le> f (xs ! i)")
      case True
      have "hd (sort_key f (x # xs)) = (x # xs) ! 0"
        using True i(2) False by (simp add: hd_insort_key)
      moreover have "\<forall>j<length (x # xs). f ((x # xs) ! 0) \<le> f ((x # xs) ! j)"
        using True i(3) by (auto simp: nth_Cons split: nat.splits)
      ultimately show ?thesis by (intro exI [of _ 0]) simp
    next
      case larger: False
      have "hd (sort_key f (x # xs)) = (x # xs) ! Suc i"
        using larger i(2) False by (simp add: hd_insort_key)
      moreover have "\<forall>j<length (x # xs). f ((x # xs) ! Suc i) \<le> f ((x # xs) ! j)"
        using larger i(3) by (auto simp: nth_Cons split: nat.splits)
      moreover have "\<forall>j<Suc i. f ((x # xs) ! Suc i) < f ((x # xs) ! j)"
        using larger i(4) by (auto simp: nth_Cons split: nat.splits)
      ultimately show ?thesis using i(1) by (intro exI [of _ "Suc i"]) simp
    qed
  qed
qed



subsection \<open>Removal from an empty frontier; one insertion, one removal\<close>

lemma remove_empty: "empty fr \<Longrightarrow> remove fr = Inl EmptyFrontier"
  by (cases fr) simp_all

lemma add_unknown_parent: "\<not> parent_known fr n \<Longrightarrow> add fr n = Inl KeyError"
  by (cases fr) (auto simp: parent_known_def split: option.splits)

lemma add_remove_single:
  assumes "empty fr" "parent_known fr n"
  shows "\<exists>fr1 fr2. add fr n = Inr fr1 \<and> remove fr1 = Inr (n, fr2) \<and> empty fr2"
proof (cases fr)
  case (AStarFrontier xs gl st gc)
  with assms show ?thesis
    by (cases "parent n") (auto simp: parent_known_def Let_def)
qed (use assms in \<open>auto simp: Let_def\<close>)

text \<open>
  C4 (as amended). For each of the four strategies, \<^verbatim>\<open>remove()\<close> on an empty frontier
  raises the exception "empty frontier"; on an empty frontier, \<^verbatim>\<open>add(n)\<close> followed by
  \<^verbatim>\<open>remove()\<close> returns \<open>n\<close> and leaves the frontier empty, for every node with the three
  strategies that keep no cost map, and in the A* strategy for every node that has no
  parent or whose parent's state has a recorded cost; for any other node the A*
  \<^verbatim>\<open>add\<close> raises \<^verbatim>\<open>KeyError\<close>.
\<close>

theorem remove_empty_and_add_remove:
  "(empty fr \<longrightarrow> remove fr = Inl EmptyFrontier) \<and>
   (empty fr \<and> parent_known fr n \<longrightarrow>
      (\<exists>fr1 fr2. add fr n = Inr fr1 \<and> remove fr1 = Inr (n, fr2) \<and> empty fr2)) \<and>
   (\<not> parent_known fr n \<longrightarrow> add fr n = Inl KeyError)"
  using remove_empty add_remove_single add_unknown_parent by blast

theorem remove_empty_and_add_remove_witness:
  "empty (AStarFrontier_init (0, 0) (2, 2)) \<and>
   parent_known (AStarFrontier_init (0, 0) (2, 2)) (Node (0, 1) (Some (Node (0, 0) None None)) (Some ''right'')) \<and>
   remove (AStarFrontier_init (0, 0) (2, 2)) = Inl EmptyFrontier \<and>
   (\<exists>fr1 fr2. add (AStarFrontier_init (0, 0) (2, 2)) (Node (0, 1) (Some (Node (0, 0) None None)) (Some ''right'')) = Inr fr1
      \<and> remove fr1 = Inr (Node (0, 1) (Some (Node (0, 0) None None)) (Some ''right''), fr2)
      \<and> empty fr2) \<and>
   \<not> parent_known (AStarFrontier_init (0, 0) (2, 2)) (Node (1, 1) (Some (Node (5, 5) None None)) (Some ''up'')) \<and>
   add (AStarFrontier_init (0, 0) (2, 2)) (Node (1, 1) (Some (Node (5, 5) None None)) (Some ''up'')) = Inl KeyError"
proof -
  have h: "empty (AStarFrontier_init (0, 0) (2, 2))"
    "parent_known (AStarFrontier_init (0, 0) (2, 2)) (Node (0, 1) (Some (Node (0, 0) None None)) (Some ''right''))"
    "\<not> parent_known (AStarFrontier_init (0, 0) (2, 2)) (Node (1, 1) (Some (Node (5, 5) None None)) (Some ''up''))"
    by (simp_all add: AStarFrontier_init_def parent_known_def)
  from remove_empty_and_add_remove [of "AStarFrontier_init (0, 0) (2, 2)"
      "Node (0, 1) (Some (Node (0, 0) None None)) (Some ''right'')"]
    remove_empty_and_add_remove [of "AStarFrontier_init (0, 0) (2, 2)"
      "Node (1, 1) (Some (Node (5, 5) None None)) (Some ''up'')"] h
  show ?thesis by blast
qed

text \<open>
  The claim as it was stated fails in the A* strategy: on the empty frontier
  \<^verbatim>\<open>AStarFrontier((0, 0), (2, 2))\<close>, \<^verbatim>\<open>add\<close> of a node whose parent is at (5, 5) raises
  \<^verbatim>\<open>KeyError\<close>, so no \<^verbatim>\<open>remove()\<close> follows it.
\<close>

theorem add_astar_unknown_parent_counterexample:
  "empty (AStarFrontier_init (0, 0) (2, 2)) \<and>
   add (AStarFrontier_init (0, 0) (2, 2)) (Node (1, 1) (Some (Node (5, 5) None None)) (Some ''up''))
     = Inl KeyError"
  by (simp add: AStarFrontier_init_def)

subsection \<open>The Greedy strategy\<close>

lemma greedy_adds:
  "adds (GreedyFrontier (sort_key fst es) g) ns
     = Inr (GreedyFrontier (sort_key fst (es @ map (\<lambda>n. (manhattan (state n) g, n)) ns)) g)"
proof (induction ns arbitrary: es)
  case Nil
  then show ?case by simp
next
  case (Cons n ns)
  show ?case using Cons.IH [of "es @ [(manhattan (state n) g, n)]"]
    by (simp add: sort_key_resort)
qed

text \<open>
  C7. After the nodes \<open>ns\<close> have been added, in this order, to a new \<open>GreedyFrontier\<close>
  of goal \<open>g\<close>, \<^verbatim>\<open>remove()\<close> returns the node \<open>ns ! i\<close> where \<open>i\<close> is the first position
  of least h = |row - goal.row| + |col - goal.col|, row and col being the node's state:
  no node of the frontier has a smaller h, and every node added before it has a strictly
  larger one.
\<close>

theorem greedy_remove_min:
  assumes "ns \<noteq> []"
  shows "\<exists>i fr fr'. i < length ns \<and> adds (GreedyFrontier_init g) ns = Inr fr \<and> remove fr = Inr (ns ! i, fr')
     \<and> (\<forall>j<length ns. \<bar>fst (state (ns ! i)) - fst g\<bar> + \<bar>snd (state (ns ! i)) - snd g\<bar>
                          \<le> \<bar>fst (state (ns ! j)) - fst g\<bar> + \<bar>snd (state (ns ! j)) - snd g\<bar>)
     \<and> (\<forall>j<i. \<bar>fst (state (ns ! i)) - fst g\<bar> + \<bar>snd (state (ns ! i)) - snd g\<bar>
                   < \<bar>fst (state (ns ! j)) - fst g\<bar> + \<bar>snd (state (ns ! j)) - snd g\<bar>)"
proof -
  let ?es = "map (\<lambda>n. (manhattan (state n) g, n)) ns"
  have a: "adds (GreedyFrontier_init g) ns = Inr (GreedyFrontier (sort_key fst ?es) g)"
    using greedy_adds [of "[]" g ns] by (simp add: GreedyFrontier_init_def)
  from assms have "?es \<noteq> []" by simp
  from hd_sort_key_first_min [OF this, of fst]
  obtain i where i: "i < length ns" "hd (sort_key fst ?es) = ?es ! i"
      "\<forall>j<length ns. fst (?es ! i) \<le> fst (?es ! j)" "\<forall>j<i. fst (?es ! i) < fst (?es ! j)"
    by auto
  have "remove (GreedyFrontier (sort_key fst ?es) g) = Inr (ns ! i, GreedyFrontier (tl (sort_key fst ?es)) g)"
    using i(1,2) assms by simp
  with a i show ?thesis by (intro exI [of _ i]) (auto simp: manhattan_def)
qed

theorem greedy_remove_min_witness:
  "[Node (0, 0) None None, Node (0, 1) None None, Node (1, 0) None None] \<noteq> [] \<and>
   (\<exists>fr fr'. adds (GreedyFrontier_init (2, 2))
                [Node (0, 0) None None, Node (0, 1) None None, Node (1, 0) None None] = Inr fr \<and>
      remove fr = Inr (Node (0, 1) None None, fr'))"
proof -
  let ?ns = "[Node (0, 0) None None, Node (0, 1) None None, Node (1, 0) None None]"
  have h: "?ns \<noteq> []" by simp
  from greedy_remove_min [OF h, of "(2, 2)"] obtain i fr fr' where
    i: "i < length ?ns" and a: "adds (GreedyFrontier_init (2, 2)) ?ns = Inr fr"
    and r: "remove fr = Inr (?ns ! i, fr')"
    and le: "\<forall>j<length ?ns. \<bar>fst (state (?ns ! i)) - fst (2::int, 2::int)\<bar> + \<bar>snd (state (?ns ! i)) - snd (2::int, 2::int)\<bar>
                          \<le> \<bar>fst (state (?ns ! j)) - fst (2::int, 2::int)\<bar> + \<bar>snd (state (?ns ! j)) - snd (2::int, 2::int)\<bar>"
    and less: "\<forall>j<i. \<bar>fst (state (?ns ! i)) - fst (2::int, 2::int)\<bar> + \<bar>snd (state (?ns ! i)) - snd (2::int, 2::int)\<bar>
                   < \<bar>fst (state (?ns ! j)) - fst (2::int, 2::int)\<bar> + \<bar>snd (state (?ns ! j)) - snd (2::int, 2::int)\<bar>"
    by blast
  from i have "i = 0 \<or> i = 1 \<or> i = 2" by auto
  then have "i = 1"
  proof (elim disjE)
    assume "i = 0"
    with le [rule_format, of 1] show ?thesis by simp
  next
    assume "i = 2"
    with less [rule_format, of 1] show ?thesis by simp
  qed
  with r have "remove fr = Inr (Node (0, 1) None None, fr')" by simp
  with h a show ?thesis by blast
qed

subsection \<open>The A* strategy\<close>


text \<open>There the node returned is the one inserted first.\<close>

lemma astar_remove_example:
  "remove (AStarFrontier (sort_key fst example_entries) (0, 3) (0, 0) [(0, 0) \<mapsto> 0, (0, 1) \<mapsto> 1])
     = Inr (Node (0, 0) None None,
            AStarFrontier [(3, Node (0, 1) (Some (Node (0, 0) None None)) (Some ''right''))]
              (0, 3) (0, 0) [(0, 0) \<mapsto> 0, (0, 1) \<mapsto> 1])"
  by (simp add: example_entries_def)

section \<open>Properties of the maze\<close>

text \<open>
  A cell is inside the grid when \<^verbatim>\<open>0 <= r < self.height and 0 <= c < self.width\<close>. The
  grid is rectangular when \<^verbatim>\<open>self.walls\<close> has \<^verbatim>\<open>height\<close> rows of \<^verbatim>\<open>width\<close> cells each;
  the constructor makes one row per line, as long as the line, so that a text with a
  line shorter than its longest gives a grid that is not rectangular.
\<close>

definition in_bounds :: "maze \<Rightarrow> cell \<Rightarrow> bool" where
  "in_bounds m t = (0 \<le> fst t \<and> fst t < height m \<and> 0 \<le> snd t \<and> snd t < width m)"

definition rectangular :: "maze \<Rightarrow> bool" where
  "rectangular m =
     (int (length (walls m)) = height m \<and> (\<forall>row \<in> set (walls m). int (length row) = width m))"

text \<open>A text of two lines, the second shorter than the first: \<^verbatim>\<open>"A \nB"\<close>.\<close>

definition ragged_text :: string where
  "ragged_text = ''A '' @ [CHR 0x0A] @ ''B''"

subsection \<open>Construction\<close>

lemma linebreak_markers [simp]: "\<not> linebreak CHR ''A''" "\<not> linebreak CHR ''B''" "\<not> linebreak CHR '' ''"
  by (simp_all add: linebreak_def)

lemma linebreak_CR_LF [simp]: "linebreak CHR 0x0D" "linebreak CHR 0x0A"
  by (simp_all add: linebreak_def)

lemma concat_splitlines_from:
  "concat (splitlines_from cur s) = cur @ filter (\<lambda>c. \<not> linebreak c) s"
  by (induction cur s rule: splitlines_from.induct) auto

lemma set_concat_splitlines:
  "\<Union> (set ` set (splitlines s)) = {c \<in> set s. \<not> linebreak c}"
  using concat_splitlines_from [of "[]" s, THEN arg_cong, of set]
  by (simp add: splitlines_def)

lemma set_positions:
  "set (positions ch ls) = {(int i, int j) | i j. i < length ls \<and> j < length (ls ! i) \<and> ls ! i ! j = ch}"
proof (intro set_eqI iffI)
  fix p assume "p \<in> set (positions ch ls)"
  then obtain i line j cell where "(i, line) \<in> set (enumerate 0 ls)"
      "(j, cell) \<in> set (enumerate 0 line)" "cell = ch" "p = (int i, int j)"
    by (auto simp: positions_def)
  then have "i < length ls" "j < length (ls ! i)" "ls ! i ! j = ch"
    by (auto simp: in_set_enumerate_eq)
  with \<open>p = (int i, int j)\<close>
  show "p \<in> {(int i, int j) | i j. i < length ls \<and> j < length (ls ! i) \<and> ls ! i ! j = ch}"
    by blast
next
  fix p assume "p \<in> {(int i, int j) | i j. i < length ls \<and> j < length (ls ! i) \<and> ls ! i ! j = ch}"
  then obtain i j where ij: "p = (int i, int j)" "i < length ls" "j < length (ls ! i)" "ls ! i ! j = ch"
    by blast
  then have "(i, ls ! i) \<in> set (enumerate 0 ls)" "(j, ch) \<in> set (enumerate 0 (ls ! i))"
    by (auto simp: in_set_enumerate_eq)
  then show "p \<in> set (positions ch ls)"
    unfolding positions_def ij(1) by force
qed

lemma positions_eq_Nil: "positions ch ls = [] \<longleftrightarrow> ch \<notin> \<Union> (set ` set ls)"
proof -
  have "positions ch ls = [] \<longleftrightarrow> set (positions ch ls) = {}" by simp
  also have "\<dots> \<longleftrightarrow> ch \<notin> \<Union> (set ` set ls)"
    unfolding set_positions by (auto simp: in_set_conv_nth) (metis in_set_conv_nth)+
  finally show ?thesis .
qed

lemma count_list_one_mem: "count_list xs x = 1 \<Longrightarrow> x \<in> set xs"
  by (metis count_list_0_iff zero_neq_one)

lemma maze_init_succeeds:
  assumes "count_list contents CHR ''A'' = 1" "count_list contents CHR ''B'' = 1"
  shows "\<exists>m. maze_init contents = Inr m"
proof -
  let ?ls = "splitlines contents"
  have a: "CHR ''A'' \<in> \<Union> (set ` set ?ls)" and b: "CHR ''B'' \<in> \<Union> (set ` set ?ls)"
    using assms by (simp_all add: set_concat_splitlines count_list_one_mem)
  then have "?ls \<noteq> []" by auto
  moreover from a b have "positions CHR ''A'' ?ls \<noteq> []" "positions CHR ''B'' ?ls \<noteq> []"
    by (simp_all only: positions_eq_Nil not_not)
  ultimately show ?thesis using assms
    by (auto simp: maze_init_def Let_def split: list.splits)
qed

text \<open>
  C8. The constructor raises its exception whenever the text does not hold exactly one
  \<^verbatim>\<open>A\<close> and exactly one \<^verbatim>\<open>B\<close>, so that no maze is made of a text with two start
  markers; and it makes a maze of every text that holds exactly one of each.
\<close>

theorem maze_init_markers:
  "(count_list contents CHR ''A'' \<noteq> 1 \<or> count_list contents CHR ''B'' \<noteq> 1
      \<longrightarrow> maze_init contents = Inl InvalidMaze)
   \<and> (count_list contents CHR ''A'' = 1 \<and> count_list contents CHR ''B'' = 1
      \<longrightarrow> (\<exists>m. maze_init contents = Inr m))"
  using maze_init_succeeds [of contents] by (auto simp: maze_init_def)

theorem maze_init_markers_witness:
  "count_list ''A A B'' CHR ''A'' \<noteq> 1 \<and> maze_init ''A A B'' = Inl InvalidMaze
   \<and> count_list ''A  B'' CHR ''A'' = 1 \<and> count_list ''A  B'' CHR ''B'' = 1 \<and> (\<exists>m. maze_init ''A  B'' = Inr m)"
  using maze_init_markers [of "''A A B''"] maze_init_markers [of "''A  B''"]
  by simp

lemma maze_init_Inr:
  assumes "maze_init contents = Inr m"
  shows "start m \<in> set (positions CHR ''A'' (splitlines contents))"
    and "goal m \<in> set (positions CHR ''B'' (splitlines contents))"
    and "walls m = map (map (\<lambda>cell. cell \<noteq> CHR '' '' \<and> cell \<noteq> CHR ''A'' \<and> cell \<noteq> CHR ''B'')) (splitlines contents)"
    and "height m = int (length (splitlines contents))"
    and "solution m = None"
  using assms
  by (auto simp: maze_init_def Let_def split: if_splits list.splits)

lemma maze_init_start_neq_goal:
  assumes "maze_init contents = Inr m"
  shows "start m \<noteq> goal m"
proof
  assume eq: "start m = goal m"
  from maze_init_Inr(1) [OF assms] obtain i j where
    a: "start m = (int i, int j)" "splitlines contents ! i ! j = CHR ''A''"
    unfolding set_positions by blast
  from maze_init_Inr(2) [OF assms] obtain i' j' where
    b: "goal m = (int i', int j')" "splitlines contents ! i' ! j' = CHR ''B''"
    unfolding set_positions by blast
  from eq a(1) b(1) have "i = i'" "j = j'" by simp_all
  with a(2) b(2) show False by simp
qed

subsection \<open>Neighbours\<close>

lemma finite_in_bounds: "finite {t. in_bounds m t}"
proof -
  have "{t. in_bounds m t} = {0..<height m} \<times> {0..<width m}"
    by (auto simp: in_bounds_def)
  then show ?thesis by simp
qed

lemma keep_candidates_filter:
  "keep_candidates m cs = Inr ys \<Longrightarrow>
   ys = filter (\<lambda>(a, t). in_bounds m t \<and> wall_at m (fst t) (snd t) = Inr False) cs"
proof (induction m cs arbitrary: ys rule: keep_candidates.induct)
  case (1 m)
  then show ?case by simp
next
  case (2 m a r c rest)
  then show ?case
    by (auto simp: in_bounds_def split: if_splits sum.splits)
qed

lemma keep_candidates_error:
  "keep_candidates m cs = Inl e \<Longrightarrow> e = IndexError"
  by (induction m cs rule: keep_candidates.induct)
     (auto simp: wall_at_def py_index_def split: if_splits sum.splits)

lemma wall_at_rectangular:
  assumes "rectangular m" "in_bounds m t"
  shows "\<exists>w. wall_at m (fst t) (snd t) = Inr w"
proof -
  from assms have r: "nat (fst t) < length (walls m)" "0 \<le> fst t"
    by (auto simp: rectangular_def in_bounds_def)
  then have "walls m ! nat (fst t) \<in> set (walls m)" by simp
  with assms have "int (length (walls m ! nat (fst t))) = width m"
    by (auto simp: rectangular_def)
  with assms r show ?thesis
    by (auto simp: wall_at_def py_index_def in_bounds_def rectangular_def)
qed

lemma keep_candidates_rectangular:
  "rectangular m \<Longrightarrow> \<exists>ys. keep_candidates m cs = Inr ys"
proof (induction m cs rule: keep_candidates.induct)
  case (1 m)
  then show ?case by simp
next
  case (2 m a r c rest)
  show ?case
  proof (cases "in_bounds m (r, c)")
    case True
    with wall_at_rectangular [OF "2.prems" True] "2.IH" "2.prems" show ?thesis
      by (auto simp: in_bounds_def)
  next
    case False
    with "2.IH" "2.prems" show ?thesis by (auto simp: in_bounds_def)
  qed
qed

lemma neighbors_error: "neighbors m s = Inl e \<Longrightarrow> e = IndexError"
  unfolding neighbors_def Let_def by (rule keep_candidates_error)

lemma neighbors_rectangular: "rectangular m \<Longrightarrow> \<exists>nbs. neighbors m s = Inr nbs"
  unfolding neighbors_def Let_def by (rule keep_candidates_rectangular)

lemma neighbors_sound:
  assumes "neighbors m s = Inr nbs" "(a, t) \<in> set nbs"
  shows "in_bounds m t" "wall_at m (fst t) (snd t) = Inr False" "new_pos s a = Some t"
proof -
  let ?cs = "[(''up'', (fst s - 1, snd s)), (''down'', (fst s + 1, snd s)),
                        (''left'', (fst s, snd s - 1)), (''right'', (fst s, snd s + 1))]"
  from assms(1) have "keep_candidates m ?cs = Inr nbs"
    unfolding neighbors_def Let_def .
  from keep_candidates_filter [OF this]
  have "set nbs = {x \<in> set ?cs. case x of (a, t) \<Rightarrow> in_bounds m t \<and> wall_at m (fst t) (snd t) = Inr False}"
    by (simp only: set_filter)
  with assms(2)
  have *: "(a, t) \<in> set ?cs" "in_bounds m t" "wall_at m (fst t) (snd t) = Inr False"
    by auto
  then show "in_bounds m t" "wall_at m (fst t) (snd t) = Inr False" by simp_all
  from *(1) show "new_pos s a = Some t"
    by (auto simp: new_pos_def Let_def)
qed

lemma keep_candidates_frame:
  "height m' = height m \<Longrightarrow> width m' = width m \<Longrightarrow> walls m' = walls m \<Longrightarrow>
   keep_candidates m' cs = keep_candidates m cs"
  by (induction m cs rule: keep_candidates.induct) (auto simp: wall_at_def split: sum.splits)

lemma neighbors_frame:
  "height m' = height m \<Longrightarrow> width m' = width m \<Longrightarrow> walls m' = walls m \<Longrightarrow>
   neighbors m' s = neighbors m s"
  unfolding neighbors_def Let_def by (rule keep_candidates_frame)

text \<open>
  C2. The claim is that \<^verbatim>\<open>neighbors\<close> returns, without an error, a list of cells of the
  grid that are no walls, also when the lines of the text differ in length. On the maze
  made of the text \<^verbatim>\<open>"A \nB"\<close> (height 2, width 2) the call \<^verbatim>\<open>neighbors((0, 1))\<close> raises
  \<^verbatim>\<open>IndexError\<close>: the candidate (1, 1) passes both range tests and \<^verbatim>\<open>self.walls[1][1]\<close>
  reads past the end of the second row, which has one cell.
\<close>

theorem neighbors_ragged_index_error:
  "\<exists>m. maze_init ragged_text = Inr m \<and> height m = 2 \<and> width m = 2 \<and> neighbors m (0, 1) = Inl IndexError"
  by (simp add: ragged_text_def maze_init_def splitlines_def positions_def enumerate_eq_zip
      neighbors_def wall_at_def py_index_def linebreak_def)

theorem neighbors_ragged_index_error_witness:
  "count_list ragged_text CHR ''A'' = 1 \<and> count_list ragged_text CHR ''B'' = 1 \<and>
   (\<exists>m. maze_init ragged_text = Inr m \<and> height m = 2 \<and> width m = 2 \<and> neighbors m (0, 1) = Inl IndexError)"
  using neighbors_ragged_index_error by (simp add: ragged_text_def)

text \<open>On a rectangular grid the call does return, and only cells of the grid that are no walls.\<close>

lemma neighbors_rectangular_ok:
  assumes "rectangular m"
  shows "\<exists>nbs. neighbors m s = Inr nbs \<and>
           (\<forall>(a, t) \<in> set nbs. in_bounds m t \<and> wall_at m (fst t) (snd t) = Inr False)"
proof -
  from neighbors_rectangular [OF assms] obtain nbs where n: "neighbors m s = Inr nbs" by blast
  with neighbors_sound [OF n] show ?thesis by auto
qed

section \<open>The search: invariant\<close>

text \<open>
  The nodes a frontier holds, in the order of its list; the states of these nodes; and
  the states for which an \<open>AStarFrontier\<close> has a recorded cost (the other classes look
  none up, so that every state counts as known to them).
\<close>

fun nodes_of :: "frontier \<Rightarrow> node list" where
  "nodes_of (StackFrontier xs) = xs"
| "nodes_of (QueueFrontier xs) = xs"
| "nodes_of (GreedyFrontier xs gl) = map snd xs"
| "nodes_of (AStarFrontier xs gl st gc) = map snd xs"

definition states_of :: "frontier \<Rightarrow> cell set" where
  "states_of fr = state ` set (nodes_of fr)"

fun known :: "frontier \<Rightarrow> cell set" where
  "known (AStarFrontier xs gl st gc) = dom gc"
| "known fr = UNIV"

text \<open>
  A node made by a search of the maze \<open>m\<close>: the node of the start cell, which has no
  parent, or a child made in the expansion of such a node, whose action and state are one
  of the pairs that \<^verbatim>\<open>neighbors\<close> returned for its parent's state, and whose state is not
  the start cell.
\<close>

fun good_node :: "maze \<Rightarrow> node \<Rightarrow> bool" where
  "good_node m (Node s None a) = (s = start m)"
| "good_node m (Node s (Some p) a) =
     (good_node m p \<and> s \<noteq> start m \<and>
      (case a of
         None \<Rightarrow> False
       | Some act \<Rightarrow> (case neighbors m (state p) of Inl e \<Rightarrow> False | Inr nbs \<Rightarrow> (act, s) \<in> set nbs)))"

text \<open>
  The invariant of the search loop: the states of the frontier's nodes are pairwise
  distinct and none of them is explored; they and the explored cells are the start cell
  or cells of the grid, and are known to the frontier; the start cell is in the frontier
  or explored; every node of the frontier was made by the search.
\<close>

definition search_inv :: "maze \<Rightarrow> frontier \<Rightarrow> bool" where
  "search_inv m fr =
     (distinct (map state (nodes_of fr)) \<and>
      states_of fr \<inter> explored m = {} \<and>
      states_of fr \<union> explored m \<subseteq> insert (start m) {t. in_bounds m t} \<and>
      states_of fr \<union> explored m \<subseteq> known fr \<and>
      start m \<in> states_of fr \<union> explored m \<and>
      (\<forall>n \<in> set (nodes_of fr). good_node m n))"

lemma empty_nodes_of: "empty fr \<longleftrightarrow> nodes_of fr = []"
  by (cases fr) simp_all

lemma contains_state_iff: "contains_state fr s \<longleftrightarrow> s \<in> states_of fr"
  by (cases fr) (force simp: states_of_def)+

lemma add_nodes_of:
  assumes "add fr n = Inr fr'"
  shows "mset (nodes_of fr') = add_mset n (mset (nodes_of fr))"
    and "known fr' = insert (state n) (known fr)"
proof -
  have "mset (nodes_of fr') = add_mset n (mset (nodes_of fr)) \<and> known fr' = insert (state n) (known fr)"
  proof (cases fr)
    case (GreedyFrontier xs gl)
    with assms show ?thesis
      by (auto simp: Let_def)
  next
    case (AStarFrontier xs gl st gc)
    with assms show ?thesis
      by (auto simp: Let_def split: option.splits sum.splits)
  qed (use assms in auto)
  then show "mset (nodes_of fr') = add_mset n (mset (nodes_of fr))"
    and "known fr' = insert (state n) (known fr)" by simp_all
qed

lemma add_succeeds:
  assumes "case parent n of None \<Rightarrow> True | Some p \<Rightarrow> state p \<in> known fr"
  shows "\<exists>fr'. add fr n = Inr fr'"
  using assms by (cases fr) (auto simp: Let_def split: option.splits)

lemma remove_nodes_of:
  assumes "\<not> empty fr"
  shows "\<exists>n fr'. remove fr = Inr (n, fr') \<and> mset (nodes_of fr) = add_mset n (mset (nodes_of fr'))
           \<and> known fr' = known fr"
proof (cases fr)
  case (StackFrontier xs)
  with assms have "xs \<noteq> []" by simp
  then have "butlast xs @ [last xs] = xs"
    by (rule append_butlast_last_id)
  then have "mset (butlast xs @ [last xs]) = mset xs"
    by (rule arg_cong)
  then have "mset xs = add_mset (last xs) (mset (butlast xs))"
    by simp
  with StackFrontier \<open>xs \<noteq> []\<close> show ?thesis by simp
next
  case (QueueFrontier xs)
  with assms show ?thesis by (cases xs) auto
next
  case (GreedyFrontier xs gl)
  with assms show ?thesis by (cases xs) auto
next
  case (AStarFrontier xs gl st gc)
  with assms show ?thesis by (cases xs) auto
qed

lemma remove_error: "remove fr = Inl e \<Longrightarrow> empty fr \<and> e = EmptyFrontier"
  by (cases fr) (auto split: if_splits)

lemma remove_Inr_not_empty: "remove fr = Inr r \<Longrightarrow> \<not> empty fr"
  by (cases fr) (auto split: if_splits)

lemma mset_add_distinct:
  assumes "mset ys = add_mset x (mset xs)"
  shows "set ys = insert x (set xs)"
    and "distinct (map f ys) \<longleftrightarrow> f x \<notin> f ` set xs \<and> distinct (map f xs)"
proof -
  from assms have eq: "mset ys = mset (x # xs)" by simp
  then show "set ys = insert x (set xs)" by (metis mset_eq_setD list.simps(15))
  from eq have "mset (map f ys) = mset (map f (x # xs))"
    by (metis mset_map)
  then have "distinct (map f ys) \<longleftrightarrow> distinct (map f (x # xs))"
    by (rule mset_eq_imp_distinct_iff)
  then show "distinct (map f ys) \<longleftrightarrow> f x \<notin> f ` set xs \<and> distinct (map f xs)" by simp
qed

lemma add_states_of: "add fr n = Inr fr' \<Longrightarrow> states_of fr' = insert (state n) (states_of fr)"
  using mset_add_distinct(1) [OF add_nodes_of(1)] by (simp add: states_of_def)

lemma remove_states_of:
  assumes "remove fr = Inr (nd, fr1)"
  shows "states_of fr = insert (state nd) (states_of fr1)"
proof -
  from remove_nodes_of [OF remove_Inr_not_empty [OF assms]] assms
  have "mset (nodes_of fr) = add_mset nd (mset (nodes_of fr1))" by auto
  from mset_add_distinct(1) [OF this] show ?thesis
    by (simp add: states_of_def)
qed

lemma good_node_frame:
  "height m' = height m \<Longrightarrow> width m' = width m \<Longrightarrow> walls m' = walls m \<Longrightarrow> start m' = start m \<Longrightarrow>
   good_node m' n = good_node m n"
proof (induction m n rule: good_node.induct)
  case (1 m s a)
  then show ?case by simp
next
  case (2 m s p a)
  from "2.prems" have "neighbors m' (state p) = neighbors m (state p)"
    by (intro neighbors_frame)
  with 2 show ?case by (cases a) simp_all
qed

lemma in_bounds_frame:
  "height m' = height m \<Longrightarrow> width m' = width m \<Longrightarrow> in_bounds m' t = in_bounds m t"
  by (simp add: in_bounds_def)

lemma search_inv_frame:
  assumes "height m' = height m" "width m' = width m" "walls m' = walls m" "start m' = start m"
    "explored m' = explored m"
  shows "search_inv m' fr = search_inv m fr"
  using assms good_node_frame [of m' m] in_bounds_frame [of m' m]
  by (simp add: search_inv_def)

lemma search_invD:
  assumes "search_inv m fr"
  shows "distinct (map state (nodes_of fr))"
    and "states_of fr \<inter> explored m = {}"
    and "states_of fr \<subseteq> insert (start m) {t. in_bounds m t}"
    and "explored m \<subseteq> insert (start m) {t. in_bounds m t}"
    and "states_of fr \<subseteq> known fr"
    and "explored m \<subseteq> known fr"
    and "start m \<in> states_of fr \<union> explored m"
    and "\<And>n. n \<in> set (nodes_of fr) \<Longrightarrow> good_node m n"
  using assms unfolding search_inv_def by blast+

lemma search_invI:
  assumes "distinct (map state (nodes_of fr))"
    and "states_of fr \<inter> explored m = {}"
    and "states_of fr \<subseteq> insert (start m) {t. in_bounds m t}"
    and "explored m \<subseteq> insert (start m) {t. in_bounds m t}"
    and "states_of fr \<subseteq> known fr"
    and "explored m \<subseteq> known fr"
    and "start m \<in> states_of fr \<union> explored m"
    and "\<And>n. n \<in> set (nodes_of fr) \<Longrightarrow> good_node m n"
  shows "search_inv m fr"
  using assms unfolding search_inv_def by blast

lemma add_neighbors_inv:
  assumes "search_inv m fr" "good_node m nd" "state nd \<in> explored m"
    "neighbors m (state nd) = Inr full" "set rest \<subseteq> set full"
  shows "\<exists>fr'. add_neighbors fr (explored m) nd rest = Inr fr' \<and> search_inv m fr'"
  using assms(1,5)
proof (induction rest arbitrary: fr)
  case Nil
  then show ?case by simp
next
  case (Cons x rest)
  obtain a t where x: "x = (a, t)" by (cases x)
  from Cons.prems(2) have sub: "set rest \<subseteq> set full" by simp
  note inv = search_invD [OF Cons.prems(1)]
  show ?case
  proof (cases "\<not> contains_state fr t \<and> t \<notin> explored m")
    case False
    from Cons.IH [OF Cons.prems(1) sub] obtain fr' where
      "add_neighbors fr (explored m) nd rest = Inr fr'" "search_inv m fr'"
      by blast
    with False show ?thesis unfolding x by auto
  next
    case True
    let ?child = "Node t (Some nd) (Some a)"
    from inv(6) assms(3) have "state nd \<in> known fr"
      by blast
    then have "case parent ?child of None \<Rightarrow> True | Some p \<Rightarrow> state p \<in> known fr"
      by simp
    from add_succeeds [OF this] obtain fr1 where fr1: "add fr ?child = Inr fr1"
      by blast
    note n1 = add_nodes_of [OF fr1]
    note s1 = mset_add_distinct [OF n1(1)]
    from True have t: "t \<notin> states_of fr" "t \<notin> explored m"
      by (simp_all add: contains_state_iff)
    from Cons.prems(2) x have mem: "(a, t) \<in> set full" by simp
    from neighbors_sound [OF assms(4) mem] have tb: "in_bounds m t" by simp
    from inv(7) t have ts: "t \<noteq> start m"
      by blast
    with assms(2,4) mem have gc: "good_node m ?child" by simp
    have st: "states_of fr1 = insert t (states_of fr)"
      by (simp add: states_of_def s1(1))
    have kn: "known fr1 = insert t (known fr)"
      using n1(2) by simp
    have "search_inv m fr1"
    proof (rule search_invI)
      show "distinct (map state (nodes_of fr1))"
        using s1(2) [of state] inv(1) t(1) by (simp add: states_of_def)
      show "states_of fr1 \<inter> explored m = {}"
        using inv(2) t(2) unfolding st by blast
      show "states_of fr1 \<subseteq> insert (start m) {t. in_bounds m t}"
        using inv(3) tb unfolding st by blast
      show "explored m \<subseteq> insert (start m) {t. in_bounds m t}"
        by (rule inv(4))
      show "states_of fr1 \<subseteq> known fr1"
        using inv(5) unfolding st kn by blast
      show "explored m \<subseteq> known fr1"
        using inv(6) unfolding kn by blast
      show "start m \<in> states_of fr1 \<union> explored m"
        using inv(7) unfolding st by blast
      show "good_node m n" if "n \<in> set (nodes_of fr1)" for n
        using that inv(8) gc unfolding s1(1) by blast
    qed
    from Cons.IH [OF this sub] obtain fr' where
      "add_neighbors fr1 (explored m) nd rest = Inr fr'" "search_inv m fr'"
      by blast
    with True fr1 show ?thesis unfolding x by simp
  qed
qed

subsection \<open>The reconstructed path\<close>

text \<open>
  \<open>follow p actions\<close> applies the moves of \<^verbatim>\<open>move_player\<close>'s dictionary one after the
  other, from the cell \<open>p\<close>, and lists the cells reached; it is \<open>None\<close> when an action is
  \<^verbatim>\<open>None\<close> or no direction. A solution is valid when its two lists have the same length,
  its cells do not include the start cell, the last of them is the goal, each of them is
  a cell of the grid that is no wall, and following the actions from the start cell gives
  exactly the cells.
\<close>

fun follow :: "cell \<Rightarrow> string option list \<Rightarrow> cell list option" where
  "follow p [] = Some []"
| "follow p (a # acts) =
     (case a of
        None \<Rightarrow> None
      | Some d \<Rightarrow>
          (case new_pos p d of
             None \<Rightarrow> None
           | Some q \<Rightarrow> (case follow q acts of None \<Rightarrow> None | Some cs \<Rightarrow> Some (q # cs))))"

definition valid_solution :: "maze \<Rightarrow> string option list \<times> cell list \<Rightarrow> bool" where
  "valid_solution m sol =
     (let actions = fst sol; cells = snd sol in
      length actions = length cells \<and>
      start m \<notin> set cells \<and>
      cells \<noteq> [] \<and> last cells = goal m \<and>
      list_all (\<lambda>c. in_bounds m c \<and> wall_at m (fst c) (snd c) = Inr False) cells \<and>
      follow (start m) actions = Some cells)"

text \<open>Two states of one maze: the fields the constructor computes from the text agree.\<close>

definition same_grid :: "maze \<Rightarrow> maze \<Rightarrow> bool" where
  "same_grid m m' =
     (height m' = height m \<and> width m' = width m \<and> walls m' = walls m \<and>
      start m' = start m \<and> goal m' = goal m)"

lemma follow_snoc:
  "follow p xs = Some ys \<Longrightarrow> new_pos (last (p # ys)) d = Some q \<Longrightarrow>
   follow p (xs @ [Some d]) = Some (ys @ [q])"
proof (induction xs arbitrary: p ys)
  case Nil
  then show ?case by simp
next
  case (Cons a xs)
  then show ?case
    by (auto split: option.splits)
qed

lemma trace_back_good:
  assumes "good_node m n" "trace_back n = (acts, cs)"
  shows "follow (start m) (rev acts) = Some (rev cs)"
    and "length acts = length cs"
    and "start m \<notin> set cs"
    and "\<forall>c \<in> set cs. in_bounds m c \<and> wall_at m (fst c) (snd c) = Inr False"
    and "last (start m # rev cs) = state n"
proof -
  have "follow (start m) (rev acts) = Some (rev cs) \<and> length acts = length cs \<and> start m \<notin> set cs
      \<and> (\<forall>c \<in> set cs. in_bounds m c \<and> wall_at m (fst c) (snd c) = Inr False)
      \<and> last (start m # rev cs) = state n"
    using assms
  proof (induction m n arbitrary: acts cs rule: good_node.induct)
    case (1 m s a)
    then show ?case by simp
  next
    case (2 m s p a)
    obtain acts' cs' where tb: "trace_back p = (acts', cs')" by (cases "trace_back p")
    from "2.prems"(1) obtain d nbs where d: "a = Some d" "neighbors m (state p) = Inr nbs" "(d, s) \<in> set nbs"
      and gp: "good_node m p" and ns: "s \<noteq> start m"
      by (auto split: option.splits sum.splits)
    note ih = "2.IH" [OF gp tb]
    note nb = neighbors_sound [OF d(2,3)]
    from "2.prems"(2) tb have ac: "acts = a # acts'" "cs = s # cs'" by simp_all
    from ih nb(3) have "follow (start m) (rev acts' @ [Some d]) = Some (rev cs' @ [s])"
      by (intro follow_snoc) simp_all
    with ih nb ns show ?case unfolding ac d(1) by simp
  qed
  then show "follow (start m) (rev acts) = Some (rev cs)"
    and "length acts = length cs"
    and "start m \<notin> set cs"
    and "\<forall>c \<in> set cs. in_bounds m c \<and> wall_at m (fst c) (snd c) = Inr False"
    and "last (start m # rev cs) = state n" by simp_all
qed

lemma trace_back_valid:
  assumes "good_node m n" "state n = goal m" "start m \<noteq> goal m" "trace_back n = (acts, cs)"
  shows "valid_solution m (rev acts, rev cs)"
proof -
  note t = trace_back_good [OF assms(1,4)]
  from t(5) assms(2,3) have ne: "cs \<noteq> []" by auto
  with t(5) assms(2) have "last (rev cs) = goal m" by simp
  with t ne show ?thesis
    by (simp add: valid_solution_def list_all_iff)
qed

subsection \<open>One node taken from the frontier\<close>

lemma add_children_fst:
  "map_sum id fst (add_children fr fns ex nd nbs) = add_neighbors fr ex nd nbs"
proof (induction nbs arbitrary: fr fns)
  case Nil
  then show ?case by simp
next
  case (Cons x nbs)
  obtain a t where x: "x = (a, t)" by (cases x)
  show ?case unfolding x using Cons.IH
    by (auto simp: Let_def split: sum.splits)
qed

lemma add_children_Inr:
  assumes "add_neighbors fr ex nd nbs = Inr fr'"
  shows "\<exists>fns'. add_children fr fns ex nd nbs = Inr (fr', fns')"
  using add_children_fst [of fr fns ex nd nbs] assms
  by (cases "add_children fr fns ex nd nbs") auto

lemma removed_inv:
  assumes inv: "search_inv m fr" and rem: "remove fr = Inr (nd, fr1)"
    and g: "same_grid m m2" and ex: "explored m2 = insert (state nd) (explored m)"
  shows "search_inv m2 fr1" and "good_node m2 nd" and "state nd \<notin> explored m"
    and "state nd \<in> insert (start m) {t. in_bounds m t}" and "state nd \<in> explored m2"
proof -
  note i = search_invD [OF inv]
  from remove_nodes_of [OF remove_Inr_not_empty [OF rem]] rem
  have ms: "mset (nodes_of fr) = add_mset nd (mset (nodes_of fr1))" and kn: "known fr1 = known fr"
    by auto
  note s = mset_add_distinct [OF ms]
  have st: "states_of fr = insert (state nd) (states_of fr1)"
    by (simp add: states_of_def s(1))
  from i(1) s(2) [of state] have d: "state nd \<notin> states_of fr1" "distinct (map state (nodes_of fr1))"
    by (simp_all add: states_of_def)
  from i(2) show nex: "state nd \<notin> explored m" unfolding st by blast
  from i(3) show inb: "state nd \<in> insert (start m) {t. in_bounds m t}" unfolding st by blast
  from ex show "state nd \<in> explored m2" by simp
  from g have fr: "height m2 = height m" "width m2 = width m" "walls m2 = walls m" "start m2 = start m"
    by (simp_all add: same_grid_def)
  have gn: "good_node m2 n = good_node m n" for n
    using fr by (rule good_node_frame)
  have ib: "in_bounds m2 t = in_bounds m t" for t
    using fr(1,2) by (rule in_bounds_frame)
  from i(8) [of nd] show "good_node m2 nd" unfolding gn by (simp add: s(1))
  show "search_inv m2 fr1"
  proof (rule search_invI)
    show "distinct (map state (nodes_of fr1))" by (rule d(2))
    show "states_of fr1 \<inter> explored m2 = {}"
      using i(2) d(1) unfolding st ex by blast
    show "states_of fr1 \<subseteq> insert (start m2) {t. in_bounds m2 t}"
      using i(3) unfolding st ib fr(4) by blast
    show "explored m2 \<subseteq> insert (start m2) {t. in_bounds m2 t}"
      using i(4) inb unfolding ex ib fr(4) by blast
    show "states_of fr1 \<subseteq> known fr1"
      using i(5) unfolding st kn by blast
    show "explored m2 \<subseteq> known fr1"
      using i(5,6) unfolding st kn ex by blast
    show "start m2 \<in> states_of fr1 \<union> explored m2"
      using i(7) unfolding st ex fr(4) by blast
    show "good_node m2 n" if "n \<in> set (nodes_of fr1)" for n
      using that i(8) [of n] unfolding gn s(1) by blast
  qed
qed

lemma same_grid_refl [simp]: "same_grid m m"
  by (simp add: same_grid_def)

lemma same_grid_trans: "same_grid m m1 \<Longrightarrow> same_grid m1 m2 \<Longrightarrow> same_grid m m2"
  by (simp add: same_grid_def)

lemma rectangular_frame: "same_grid m m' \<Longrightarrow> rectangular m' = rectangular m"
  by (simp add: same_grid_def rectangular_def)

lemma good_node_same_grid: "same_grid m m' \<Longrightarrow> good_node m' n = good_node m n"
  unfolding same_grid_def by (intro good_node_frame) simp_all

lemma neighbors_Inl_not_rectangular:
  "neighbors m s = Inl e \<Longrightarrow> e = IndexError \<and> \<not> rectangular m"
  using neighbors_rectangular [of m s] neighbors_error [of m s e] by auto

text \<open>The cells that can still be explored: the measure of the search.\<close>

definition cells_left :: "maze \<Rightarrow> nat" where
  "cells_left m = card (insert (start m) {t. in_bounds m t} - explored m)"

lemma cells_left_less:
  assumes "same_grid m m2" "explored m2 = insert s (explored m)" "s \<notin> explored m"
    "s \<in> insert (start m) {t. in_bounds m t}"
  shows "cells_left m2 < cells_left m"
proof -
  from assms(1) have eq: "insert (start m2) {t. in_bounds m2 t} = insert (start m) {t. in_bounds m t}"
    by (simp add: same_grid_def in_bounds_def)
  have fin: "finite (insert (start m) {t. in_bounds m t} - explored m)"
    by (simp add: finite_in_bounds)
  have "insert (start m) {t. in_bounds m t} - insert s (explored m)
          \<subset> insert (start m) {t. in_bounds m t} - explored m"
    using assms(3,4) by blast
  from psubset_card_mono [OF fin this] show ?thesis
    by (simp add: cells_left_def eq assms(2))
qed

subsection \<open>One call of \<^verbatim>\<open>step\<close>\<close>

lemma step_empty: "empty fr \<Longrightarrow> step m fr = Inr (False, m, fr)"
  by (simp add: step_def)

lemma step_found:
  assumes "remove fr = Inr (nd, fr1)" "state nd = goal m" "trace_back nd = (acts, cs)"
  shows "step m fr = Inr (True, m\<lparr>num_explored := num_explored m + 1,
            solution := Some (rev acts, rev cs), solution_found := True\<rparr>, fr1)"
  using assms remove_Inr_not_empty [OF assms(1)] by (simp add: step_def Let_def)

lemma step_expand:
  assumes inv: "search_inv m fr" and rem: "remove fr = Inr (nd, fr1)" and ng: "state nd \<noteq> goal m"
  shows "(step m fr = Inl IndexError \<and> \<not> rectangular m) \<or>
         (\<exists>m' fr'. step m fr = Inr (False, m', fr') \<and> search_inv m' fr' \<and> same_grid m m' \<and>
            explored m' = insert (state nd) (explored m) \<and> solution m' = solution m \<and>
            solution_found m' = solution_found m)"
proof -
  let ?m3 = "m\<lparr>num_explored := num_explored m + 1, explored := insert (state nd) (explored m),
               frontier_nodes := []\<rparr>"
  have g: "same_grid m ?m3" by (simp add: same_grid_def)
  have ex: "explored ?m3 = insert (state nd) (explored m)" by simp
  note r = removed_inv [OF inv rem g ex]
  have unfold: "step m fr =
      (case neighbors ?m3 (state nd) of
         Inl e \<Rightarrow> Inl e
       | Inr nbs \<Rightarrow>
           (case add_children fr1 [] (insert (state nd) (explored m)) nd nbs of
              Inl e \<Rightarrow> Inl e
            | Inr (fr2, fns) \<Rightarrow> Inr (False, ?m3\<lparr>frontier_nodes := fns\<rparr>, fr2)))"
    using rem ng remove_Inr_not_empty [OF rem]
    by (simp add: step_def Let_def cong: sum.case_cong)
  show ?thesis
  proof (cases "neighbors ?m3 (state nd)")
    case (Inl e)
    from neighbors_Inl_not_rectangular [OF Inl] rectangular_frame [OF g] unfold Inl
    show ?thesis by simp
  next
    case (Inr nbs)
    from add_neighbors_inv [OF r(1,2,5) Inr order_refl] obtain fr2 where
      a: "add_neighbors fr1 (explored ?m3) nd nbs = Inr fr2" and i2: "search_inv ?m3 fr2"
      by blast
    from add_children_Inr [OF a, of "[]"] obtain fns where
      c: "add_children fr1 [] (insert (state nd) (explored m)) nd nbs = Inr (fr2, fns)"
      by auto
    have "search_inv (?m3\<lparr>frontier_nodes := fns\<rparr>) fr2 = search_inv ?m3 fr2"
      by (rule search_inv_frame) simp_all
    with i2 have "search_inv (?m3\<lparr>frontier_nodes := fns\<rparr>) fr2" by simp
    moreover have "step m fr = Inr (False, ?m3\<lparr>frontier_nodes := fns\<rparr>, fr2)"
      unfolding unfold Inr using c by simp
    ultimately show ?thesis
      by (intro disjI2 exI [of _ "?m3\<lparr>frontier_nodes := fns\<rparr>"] exI [of _ fr2])
         (simp add: same_grid_def)
  qed
qed

subsection \<open>The loop of \<^verbatim>\<open>solve\<close> in \<^verbatim>\<open>laberinto.py\<close>\<close>

text \<open>
  What the loop returns for the maze \<open>m\<close>: \<^verbatim>\<open>IndexError\<close>, on a grid that is not
  rectangular only; or \<^verbatim>\<open>False\<close> with an empty frontier and the stored solution as it
  was before; or \<^verbatim>\<open>True\<close> with the solution reconstructed from a node of the search
  whose state is the goal.
\<close>

definition loop_post :: "maze \<Rightarrow> error + bool option \<times> maze \<times> frontier \<Rightarrow> bool" where
  "loop_post m r =
     (case r of
        Inl e \<Rightarrow> e = IndexError \<and> \<not> rectangular m
      | Inr (b, m', fr') \<Rightarrow>
          same_grid m m' \<and>
          ((b = Some False \<and> empty fr' \<and> solution m' = solution m) \<or>
           (b = Some True \<and>
            (\<exists>nd. good_node m nd \<and> state nd = goal m \<and>
               solution m' = Some (rev (fst (trace_back nd)), rev (snd (trace_back nd)))))))"

lemma loop_post_frame:
  assumes "same_grid m m2" "solution m2 = solution m" "loop_post m2 r"
  shows "loop_post m r"
proof (cases r)
  case (Inl e)
  with assms rectangular_frame [OF assms(1)] show ?thesis by (simp add: loop_post_def)
next
  case (Inr x)
  obtain b m' fr' where x: "x = (b, m', fr')" by (cases x)
  from assms(1) have gl: "goal m2 = goal m" by (simp add: same_grid_def)
  from assms(3) Inr x have sg: "same_grid m2 m'" by (simp add: loop_post_def)
  with assms(1) have sg': "same_grid m m'" by (rule same_grid_trans)
  from assms(3) sg' show ?thesis
    unfolding loop_post_def Inr x good_node_same_grid [OF assms(1)] gl assms(2)
    by simp
qed

lemma loop_post_Inr:
  assumes "loop_post m r" "rectangular m"
  shows "\<exists>b m' fr'. r = Inr (Some b, m', fr') \<and>
           (if b then \<exists>nd. good_node m nd \<and> state nd = goal m \<and>
                       solution m' = Some (rev (fst (trace_back nd)), rev (snd (trace_back nd)))
            else empty fr' \<and> solution m' = solution m)"
proof (cases r)
  case (Inl e)
  with assms show ?thesis by (simp add: loop_post_def)
next
  case (Inr x)
  obtain b m' fr' where x: "x = (b, m', fr')" by (cases x)
  from assms(1) show ?thesis unfolding Inr x loop_post_def by auto
qed

lemma solve_loop_spec:
  assumes "search_inv m fr"
  shows "\<exists>r. solve_loop m fr = Some r \<and> loop_post m r"
  using assms
proof (induction "cells_left m" arbitrary: m fr rule: less_induct)
  case less
  show ?case
  proof (cases "empty fr")
    case True
    then have "solve_loop m fr = Some (Inr (Some False, m, fr))"
      by (subst solve_loop.simps) simp
    with True show ?thesis by (simp add: loop_post_def)
  next
    case False
    from remove_nodes_of [OF False] obtain nd fr1 where rem: "remove fr = Inr (nd, fr1)"
      by blast
    note inv = search_invD [OF less.prems]
    from remove_nodes_of [OF False] rem have "nd \<in> set (nodes_of fr)"
      by (metis (no_types, lifting) Inr_inject Pair_inject mset_add_distinct(1) insertI1)
    with inv(8) have gn: "good_node m nd" by blast
    show ?thesis
    proof (cases "state nd = goal m")
      case True
      obtain acts cs where tb: "trace_back nd = (acts, cs)" by (cases "trace_back nd")
      have "solve_loop m fr = Some (Inr (Some True,
              m\<lparr>num_explored := num_explored m + 1, solution := Some (rev acts, rev cs)\<rparr>, fr1))"
        using rem False True tb by (subst solve_loop.simps) (simp add: Let_def)
      moreover have "loop_post m (Inr (Some True,
              m\<lparr>num_explored := num_explored m + 1, solution := Some (rev acts, rev cs)\<rparr>, fr1))"
        using gn True tb by (auto simp: loop_post_def same_grid_def)
      ultimately show ?thesis by blast
    next
      case ng: False
      let ?m2 = "m\<lparr>num_explored := num_explored m + 1, explored := insert (state nd) (explored m)\<rparr>"
      have g: "same_grid m ?m2" by (simp add: same_grid_def)
      have ex: "explored ?m2 = insert (state nd) (explored m)" by simp
      note r = removed_inv [OF less.prems rem g ex]
      have unfold: "solve_loop m fr =
          (case neighbors ?m2 (state nd) of
             Inl e \<Rightarrow> Some (Inl e)
           | Inr nbs \<Rightarrow>
               (case add_neighbors fr1 (insert (state nd) (explored m)) nd nbs of
                  Inl e \<Rightarrow> Some (Inl e)
                | Inr fr2 \<Rightarrow> solve_loop ?m2 fr2))"
        using rem ng False
        by (subst solve_loop.simps) (simp add: Let_def cong: sum.case_cong)
      show ?thesis
      proof (cases "neighbors ?m2 (state nd)")
        case (Inl e)
        from neighbors_Inl_not_rectangular [OF Inl] rectangular_frame [OF g] unfold Inl
        show ?thesis by (simp add: loop_post_def)
      next
        case (Inr nbs)
        from add_neighbors_inv [OF r(1,2,5) Inr order_refl] obtain fr2 where
          a: "add_neighbors fr1 (explored ?m2) nd nbs = Inr fr2" and i2: "search_inv ?m2 fr2"
          by blast
        have "cells_left ?m2 < cells_left m"
          using g ex r(3,4) by (rule cells_left_less)
        from less.hyps [OF this i2] obtain res where
          res: "solve_loop ?m2 fr2 = Some res" "loop_post ?m2 res"
          by blast
        have "loop_post m res"
          using g _ res(2) by (rule loop_post_frame) simp
        moreover have "solve_loop m fr = Some res"
          unfolding unfold Inr using a res(1) by simp
        ultimately show ?thesis by blast
      qed
    qed
  qed
qed

text \<open>The start of a search.\<close>

lemma start_inv:
  assumes "empty fr" "add fr (Node (start m) None None) = Inr fr1" "explored m = {}"
  shows "search_inv m fr1"
proof -
  note n = add_nodes_of [OF assms(2)]
  from assms(1) have e: "nodes_of fr = []" by (simp add: empty_nodes_of)
  from n(1) e have ns: "nodes_of fr1 = [Node (start m) None None]"
    by (metis mset.simps(1) mset.simps(2) mset_single_iff_right)
  show ?thesis
    using n(2) by (simp add: search_inv_def ns states_of_def assms(3))
qed

lemma add_start: "\<exists>fr1. add fr (Node s None None) = Inr fr1"
  by (rule add_succeeds) simp

lemma solve_spec:
  assumes "empty fr"
  shows "\<exists>r. solve m fr = Some r \<and> loop_post m r"
proof -
  let ?m1 = "m\<lparr>num_explored := 0\<rparr>"
  let ?m2 = "?m1\<lparr>explored := {}\<rparr>"
  from add_start obtain fr1 where a: "add fr (Node (start m) None None) = Inr fr1" by blast
  then have "add fr (Node (start ?m2) None None) = Inr fr1" by simp
  from start_inv [OF assms this] have "search_inv ?m2 fr1" by simp
  from solve_loop_spec [OF this] obtain r where r: "solve_loop ?m2 fr1 = Some r" "loop_post ?m2 r"
    by blast
  have "same_grid m ?m2" by (simp add: same_grid_def)
  then have "loop_post m r" using _ r(2) by (rule loop_post_frame) simp
  moreover have "solve m fr = Some r"
    using a r(1) by (simp add: solve_def Let_def)
  ultimately show ?thesis by blast
qed

subsection \<open>Repeated calls of \<^verbatim>\<open>step\<close> in \<^verbatim>\<open>laberintoFinal.py\<close>\<close>

text \<open>
  A run of \<^verbatim>\<open>step\<close> calls has finished when a call raised, or returned \<^verbatim>\<open>True\<close>, or left
  the frontier empty.
\<close>

definition finished :: "error + bool \<times> maze \<times> frontier \<Rightarrow> bool" where
  "finished r = (case r of Inl e \<Rightarrow> True | Inr (found, m', fr') \<Rightarrow> found \<or> empty fr')"

text \<open>The mazes of the texts \<^verbatim>\<open>"A B"\<close> and \<^verbatim>\<open>"A#B"\<close>, as the constructor makes them.\<close>

definition corridor_maze :: maze where
  "corridor_maze =
     \<lparr>height = 1, width = 3, walls = [[False, False, False]], start = (0, 0), goal = (0, 2),
      solution = None, player_pos = (0, 0), num_explored = 0, solution_found = False,
      explored = {}, frontier_nodes = []\<rparr>"

definition blocked_maze :: maze where
  "blocked_maze =
     \<lparr>height = 1, width = 3, walls = [[False, True, False]], start = (0, 0), goal = (0, 2),
      solution = None, player_pos = (0, 0), num_explored = 0, solution_found = False,
      explored = {}, frontier_nodes = []\<rparr>"

lemma corridor_maze_init: "maze_init ''A B'' = Inr corridor_maze"
  by (simp add: maze_init_def splitlines_def positions_def enumerate_eq_zip corridor_maze_def linebreak_def)

lemma blocked_maze_init: "maze_init ''A#B'' = Inr blocked_maze"
  by (simp add: maze_init_def splitlines_def positions_def enumerate_eq_zip blocked_maze_def linebreak_def)

lemma step_False_frame:
  assumes "step m fr = Inr (False, m', fr')"
  shows "solution m' = solution m" and "same_grid m m'" and "solution_found m' = solution_found m"
proof -
  have "solution m' = solution m \<and> same_grid m m' \<and> solution_found m' = solution_found m"
    using assms
    by (auto simp: step_def Let_def same_grid_def split: if_splits sum.splits prod.splits)
  then show "solution m' = solution m" and "same_grid m m'"
    and "solution_found m' = solution_found m" by simp_all
qed

lemma steps_False_frame:
  "steps k m fr = Inr (False, m', fr') \<Longrightarrow> solution m' = solution m \<and> same_grid m m'"
proof (induction k arbitrary: m fr)
  case 0
  then show ?case by simp
next
  case (Suc k)
  from Suc.prems obtain m1 fr1 where s: "step m fr = Inr (False, m1, fr1)"
    and r: "steps k m1 fr1 = Inr (False, m', fr')"
    by (auto split: sum.splits if_splits)
  from step_False_frame [OF s] Suc.IH [OF r] show ?case
    by (auto intro: same_grid_trans)
qed

lemma step_inv_cases:
  assumes "search_inv m fr"
  shows "(empty fr \<and> step m fr = Inr (False, m, fr))
       \<or> (\<exists>nd fr1 m'. remove fr = Inr (nd, fr1) \<and> state nd = goal m \<and> good_node m nd \<and>
             step m fr = Inr (True, m', fr1) \<and> same_grid m m' \<and> solution_found m' \<and>
             solution m' = Some (rev (fst (trace_back nd)), rev (snd (trace_back nd))))
       \<or> (\<not> empty fr \<and> step m fr = Inl IndexError \<and> \<not> rectangular m)
       \<or> (\<exists>nd fr1 m' fr'. remove fr = Inr (nd, fr1) \<and> state nd \<noteq> goal m \<and>
             step m fr = Inr (False, m', fr') \<and> search_inv m' fr' \<and> same_grid m m' \<and>
             state nd \<notin> explored m \<and> explored m' = insert (state nd) (explored m) \<and>
             cells_left m' < cells_left m)"
proof (cases "empty fr")
  case True
  then show ?thesis by (simp add: step_empty)
next
  case False
  from remove_nodes_of [OF False] obtain nd fr1 where rem: "remove fr = Inr (nd, fr1)"
    by blast
  have g: "same_grid m m" by simp
  show ?thesis
  proof (cases "state nd = goal m")
    case True
    obtain acts cs where tb: "trace_back nd = (acts, cs)" by (cases "trace_back nd")
    from remove_nodes_of [OF False] rem have "nd \<in> set (nodes_of fr)"
      by (metis (no_types, lifting) Inr_inject Pair_inject mset_add_distinct(1) insertI1)
    with search_invD(8) [OF assms] have "good_node m nd" by blast
    with step_found [OF rem True tb] rem True tb show ?thesis
      by (auto simp: same_grid_def)
  next
    case ng: False
    let ?m2 = "m\<lparr>explored := insert (state nd) (explored m)\<rparr>"
    have "same_grid m ?m2" "explored ?m2 = insert (state nd) (explored m)"
      by (simp_all add: same_grid_def)
    note r = removed_inv [OF assms rem this]
    from step_expand [OF assms rem ng] show ?thesis
    proof
      assume "step m fr = Inl IndexError \<and> \<not> rectangular m"
      with False show ?thesis by simp
    next
      assume "\<exists>m' fr'. step m fr = Inr (False, m', fr') \<and> search_inv m' fr' \<and> same_grid m m' \<and>
            explored m' = insert (state nd) (explored m) \<and> solution m' = solution m \<and>
            solution_found m' = solution_found m"
      then obtain m' fr' where s: "step m fr = Inr (False, m', fr')" "search_inv m' fr'"
          "same_grid m m'" "explored m' = insert (state nd) (explored m)"
        by blast
      from cells_left_less [OF s(3,4) r(3,4)] have "cells_left m' < cells_left m" .
      with s rem ng r(3) show ?thesis by blast
    qed
  qed
qed

lemma steps_finish:
  assumes "search_inv m fr"
  shows "\<exists>k \<le> Suc (cells_left m). finished (steps k m fr)"
  using assms
proof (induction "cells_left m" arbitrary: m fr rule: less_induct)
  case less
  from step_inv_cases [OF less.prems]
  consider (e) "empty fr"
    | (f) m' fr1 where "step m fr = Inr (True, m', fr1)"
    | (x) "step m fr = Inl IndexError"
    | (s) m' fr' where "step m fr = Inr (False, m', fr')" "search_inv m' fr'" "cells_left m' < cells_left m"
    by blast
  then show ?case
  proof cases
    case e
    then have "finished (steps 0 m fr)" by (simp add: finished_def)
    then show ?thesis by blast
  next
    case f
    then have "finished (steps (Suc 0) m fr)" by (simp add: finished_def)
    then show ?thesis by (intro exI [of _ "Suc 0"]) simp
  next
    case x
    then have "finished (steps (Suc 0) m fr)" by (simp add: finished_def)
    then show ?thesis by (intro exI [of _ "Suc 0"]) simp
  next
    case s
    from less.hyps [OF s(3,2)] obtain k where k: "k \<le> Suc (cells_left m')" "finished (steps k m' fr')"
      by blast
    from s(1) k(2) have "finished (steps (Suc k) m fr)" by simp
    moreover from k(1) s(3) have "Suc k \<le> Suc (cells_left m)" by simp
    ultimately show ?thesis by blast
  qed
qed

lemma steps_found:
  assumes "search_inv m fr" "steps k m fr = Inr (True, m', fr')"
  shows "same_grid m m' \<and> solution_found m' \<and>
         (\<exists>nd. good_node m nd \<and> state nd = goal m \<and>
            solution m' = Some (rev (fst (trace_back nd)), rev (snd (trace_back nd))))"
  using assms
proof (induction k arbitrary: m fr)
  case 0
  then show ?case by simp
next
  case (Suc k)
  from step_inv_cases [OF Suc.prems(1)]
  consider (e) "step m fr = Inr (False, m, fr)"
    | (f) nd fr1 m1 where "state nd = goal m" "good_node m nd"
             "step m fr = Inr (True, m1, fr1)" "same_grid m m1" "solution_found m1"
             "solution m1 = Some (rev (fst (trace_back nd)), rev (snd (trace_back nd)))"
    | (x) "step m fr = Inl IndexError"
    | (s) m1 fr1 where "step m fr = Inr (False, m1, fr1)" "search_inv m1 fr1" "same_grid m m1"
    by blast
  then show ?case
  proof cases
    case e
    with Suc.prems(2) have "steps k m fr = Inr (True, m', fr')" by simp
    from Suc.IH [OF Suc.prems(1) this] show ?thesis .
  next
    case f
    with Suc.prems(2) have "m' = m1" by simp
    with f show ?thesis by blast
  next
    case x
    with Suc.prems(2) show ?thesis by simp
  next
    case s
    with Suc.prems(2) have "steps k m1 fr1 = Inr (True, m', fr')" by simp
    from Suc.IH [OF s(2) this] s(3) show ?thesis
      using good_node_same_grid [OF s(3)] same_grid_trans [OF s(3)]
      by (auto simp: same_grid_def)
  qed
qed

lemma solve_final_spec:
  "\<exists>m1 fr1. solve_final m fr = Inr (None, m1, fr1) \<and> add fr (Node (start m) None None) = Inr fr1 \<and>
     same_grid m m1 \<and> solution m1 = None \<and> explored m1 = {} \<and> \<not> solution_found m1 \<and>
     (empty fr \<longrightarrow> search_inv m1 fr1)"
proof -
  from add_start obtain fr1 where a: "add fr (Node (start m) None None) = Inr fr1" by blast
  let ?m1 = "m\<lparr>num_explored := 0, explored := {}, solution_found := False, solution := None,
               frontier_nodes := []\<rparr>"
  have s: "solve_final m fr = Inr (None, ?m1, fr1)"
    using a by (simp add: solve_final_def Let_def)
  have "search_inv ?m1 fr1" if "empty fr"
    using that by (rule start_inv) (use a in simp_all)
  with s a show ?thesis by (auto simp: same_grid_def)
qed

lemma corridor_solve:
  "\<exists>m' fr'. solve corridor_maze (StackFrontier []) = Some (Inr (Some True, m', fr'))
     \<and> solution m' = Some ([Some ''right'', Some ''right''], [(0, 1), (0, 2)])"
  by (simp add: solve_def corridor_maze_def solve_loop.simps neighbors_def wall_at_def py_index_def Let_def)

lemma corridor_first_step:
  "search_inv corridor_maze (StackFrontier [Node (0, 0) None None]) \<and>
   \<not> empty (StackFrontier [Node (0, 0) None None]) \<and>
   (\<exists>m' fr'. step corridor_maze (StackFrontier [Node (0, 0) None None]) = Inr (False, m', fr'))"
  by (simp add: search_inv_def states_of_def corridor_maze_def step_def neighbors_def
      wall_at_def py_index_def Let_def in_bounds_def)

lemma corridor_steps:
  "\<exists>m1 fr1 m' fr'. solve_final corridor_maze (StackFrontier []) = Inr (None, m1, fr1) \<and>
      steps (Suc (Suc (Suc 0))) m1 fr1 = Inr (True, m', fr')"
  by (simp add: solve_final_def corridor_maze_def step_def neighbors_def
      wall_at_def py_index_def Let_def)

lemma blocked_steps:
  "\<exists>m' fr'. steps (Suc (Suc 0)) blocked_maze (QueueFrontier [Node (0, 0) None None]) = Inr (False, m', fr')"
  by (simp add: blocked_maze_def step_def neighbors_def wall_at_def py_index_def Let_def)

section \<open>The search: which cells it reaches\<close>

text \<open>
  The moves of the maze, written from its description and not from \<^verbatim>\<open>neighbors\<close>: a
  cell is free when it is inside the grid and \<^verbatim>\<open>walls\<close> holds \<^verbatim>\<open>False\<close> for it; one unit
  move leads from any cell to the free cell above, below, left or right of it; a cell is
  reachable when some sequence of unit moves leads to it from the start cell.
\<close>

definition free_cell :: "maze \<Rightarrow> cell \<Rightarrow> bool" where
  "free_cell m t = (in_bounds m t \<and> \<not> walls m ! nat (fst t) ! nat (snd t))"

definition unit_moves :: "maze \<Rightarrow> (cell \<times> cell) set" where
  "unit_moves m =
     {(s, t). free_cell m t \<and>
        (t = (fst s - 1, snd s) \<or> t = (fst s + 1, snd s) \<or> t = (fst s, snd s - 1) \<or> t = (fst s, snd s + 1))}"

definition reachable :: "maze \<Rightarrow> cell \<Rightarrow> bool" where
  "reachable m t = ((start m, t) \<in> (unit_moves m)\<^sup>*)"

text \<open>
  The same for the code: the pairs (cell, cell that \<^verbatim>\<open>neighbors\<close> returns for it), and
  the cells that can be had from the start cell by calls of \<^verbatim>\<open>neighbors\<close>. The loop
  keeps three more facts: the goal is not explored; every state of the frontier and
  every explored cell is one of these cells; and every cell that \<^verbatim>\<open>neighbors\<close> returns
  for an explored cell is explored or in the frontier.
\<close>

definition neighbor_rel :: "maze \<Rightarrow> (cell \<times> cell) set" where
  "neighbor_rel m = {(s, t). \<exists>nbs a. neighbors m s = Inr nbs \<and> (a, t) \<in> set nbs}"

definition search_space :: "maze \<Rightarrow> cell set" where
  "search_space m = (neighbor_rel m)\<^sup>* `` {start m}"

definition reach_inv :: "maze \<Rightarrow> frontier \<Rightarrow> bool" where
  "reach_inv m fr =
     (goal m \<notin> explored m \<and>
      states_of fr \<union> explored m \<subseteq> search_space m \<and>
      (\<forall>s \<in> explored m. neighbor_rel m `` {s} \<subseteq> explored m \<union> states_of fr))"

definition reach_post :: "maze \<Rightarrow> error + bool option \<times> maze \<times> frontier \<Rightarrow> bool" where
  "reach_post m r =
     (case r of
        Inl e \<Rightarrow> True
      | Inr (b, m', fr') \<Rightarrow>
          (b = Some True \<longrightarrow> goal m \<in> search_space m) \<and>
          (b = Some False \<longrightarrow> explored m' = search_space m \<and> goal m \<notin> search_space m))"

lemma wall_at_value:
  assumes "rectangular m" "in_bounds m t"
  shows "wall_at m (fst t) (snd t) = Inr (walls m ! nat (fst t) ! nat (snd t))"
proof -
  from assms have r: "nat (fst t) < length (walls m)" "0 \<le> fst t"
    by (auto simp: rectangular_def in_bounds_def)
  then have "walls m ! nat (fst t) \<in> set (walls m)" by simp
  with assms have "int (length (walls m ! nat (fst t))) = width m"
    by (auto simp: rectangular_def)
  with assms r show ?thesis
    by (auto simp: wall_at_def py_index_def in_bounds_def rectangular_def)
qed

lemma neighbors_complete:
  assumes "neighbors m s = Inr nbs" "in_bounds m t" "wall_at m (fst t) (snd t) = Inr False"
    "t = (fst s - 1, snd s) \<or> t = (fst s + 1, snd s) \<or> t = (fst s, snd s - 1) \<or> t = (fst s, snd s + 1)"
  shows "\<exists>a. (a, t) \<in> set nbs"
proof -
  let ?cs = "[(''up'', (fst s - 1, snd s)), (''down'', (fst s + 1, snd s)),
                        (''left'', (fst s, snd s - 1)), (''right'', (fst s, snd s + 1))]"
  let ?P = "\<lambda>(a, t). in_bounds m t \<and> wall_at m (fst t) (snd t) = Inr False"
  from assms(1) have "keep_candidates m ?cs = Inr nbs"
    unfolding neighbors_def Let_def .
  from keep_candidates_filter [OF this] have nbs: "nbs = filter ?P ?cs" .
  from assms(4) obtain a where a: "(a, t) \<in> set ?cs"
  proof (elim disjE)
    assume t: "t = (fst s - 1, snd s)"
    have "(''up'', t) \<in> set ?cs"
      unfolding t by (rule list.set_intros(1))
    then show ?thesis by (rule that)
  next
    assume t: "t = (fst s + 1, snd s)"
    have "(''down'', t) \<in> set ?cs"
      unfolding t by (rule list.set_intros(2), rule list.set_intros(1))
    then show ?thesis by (rule that)
  next
    assume t: "t = (fst s, snd s - 1)"
    have "(''left'', t) \<in> set ?cs"
      unfolding t by (rule list.set_intros(2), rule list.set_intros(2), rule list.set_intros(1))
    then show ?thesis by (rule that)
  next
    assume t: "t = (fst s, snd s + 1)"
    have "(''right'', t) \<in> set ?cs"
      unfolding t
      by (rule list.set_intros(2), rule list.set_intros(2), rule list.set_intros(2), rule list.set_intros(1))
    then show ?thesis by (rule that)
  qed
  from assms(2,3) have "?P (a, t)" by simp
  with a have f: "(a, t) \<in> set (filter ?P ?cs)"
    by (simp only: set_filter mem_Collect_eq)
  have "(a, t) \<in> set nbs" by (subst nbs) (rule f)
  then show ?thesis by (rule exI)
qed

lemma new_pos_cases:
  assumes "new_pos s a = Some t"
  shows "t = (fst s - 1, snd s) \<or> t = (fst s + 1, snd s) \<or> t = (fst s, snd s - 1) \<or> t = (fst s, snd s + 1)"
proof -
  consider "a = ''up''" | "a \<noteq> ''up''" "a = ''down''" | "a \<noteq> ''up''" "a \<noteq> ''down''" "a = ''left''"
    | "a \<noteq> ''up''" "a \<noteq> ''down''" "a \<noteq> ''left''" "a = ''right''"
    | "a \<noteq> ''up''" "a \<noteq> ''down''" "a \<noteq> ''left''" "a \<noteq> ''right''"
    by blast
  then show ?thesis
  proof cases
    case 1
    with assms show ?thesis unfolding new_pos_def Let_def by auto
  next
    case 2
    with assms show ?thesis unfolding new_pos_def Let_def by auto
  next
    case 3
    with assms show ?thesis unfolding new_pos_def Let_def by auto
  next
    case 4
    with assms show ?thesis unfolding new_pos_def Let_def by auto
  next
    case 5
    with assms show ?thesis unfolding new_pos_def Let_def by auto
  qed
qed

lemma neighbor_rel_rectangular:
  assumes "rectangular m"
  shows "neighbor_rel m = unit_moves m"
proof (intro set_eqI iffI)
  fix x assume "x \<in> neighbor_rel m"
  then obtain s t nbs a where x: "x = (s, t)" and n: "neighbors m s = Inr nbs" "(a, t) \<in> set nbs"
    by (auto simp: neighbor_rel_def)
  note nb = neighbors_sound [OF n]
  from wall_at_value [OF assms nb(1)] nb(2) have "\<not> walls m ! nat (fst t) ! nat (snd t)" by simp
  with nb(1) have "free_cell m t" by (simp add: free_cell_def)
  moreover from nb(3) have
    "t = (fst s - 1, snd s) \<or> t = (fst s + 1, snd s) \<or> t = (fst s, snd s - 1) \<or> t = (fst s, snd s + 1)"
    by (rule new_pos_cases)
  ultimately show "x \<in> unit_moves m" unfolding x by (simp add: unit_moves_def)
next
  fix x assume "x \<in> unit_moves m"
  then obtain s t where x: "x = (s, t)" and f: "free_cell m t"
    and mv: "t = (fst s - 1, snd s) \<or> t = (fst s + 1, snd s) \<or> t = (fst s, snd s - 1) \<or> t = (fst s, snd s + 1)"
    by (auto simp: unit_moves_def)
  from neighbors_rectangular [OF assms] obtain nbs where n: "neighbors m s = Inr nbs" by blast
  from f have ib: "in_bounds m t" by (simp add: free_cell_def)
  from wall_at_value [OF assms ib] f have "wall_at m (fst t) (snd t) = Inr False"
    by (simp add: free_cell_def)
  from neighbors_complete [OF n ib this mv] n show "x \<in> neighbor_rel m"
    unfolding x by (auto simp: neighbor_rel_def)
qed

lemma search_space_rectangular: "rectangular m \<Longrightarrow> search_space m = {t. reachable m t}"
  by (auto simp: search_space_def reachable_def neighbor_rel_rectangular)

lemma neighbor_rel_frame: "same_grid m m' \<Longrightarrow> neighbor_rel m' = neighbor_rel m"
  unfolding neighbor_rel_def same_grid_def
  using neighbors_frame [of m' m] by simp

lemma search_space_frame: "same_grid m m' \<Longrightarrow> search_space m' = search_space m"
  by (simp add: search_space_def neighbor_rel_frame) (simp add: same_grid_def)

lemma neighbor_rel_Image: "neighbors m s = Inr nbs \<Longrightarrow> neighbor_rel m `` {s} = snd ` set nbs"
  by (force simp: neighbor_rel_def)

lemma search_space_step: "s \<in> search_space m \<Longrightarrow> (s, t) \<in> neighbor_rel m \<Longrightarrow> t \<in> search_space m"
  unfolding search_space_def by (auto intro: rtrancl_into_rtrancl)

lemma search_space_closed:
  assumes "start m \<in> X" "\<forall>s \<in> X. neighbor_rel m `` {s} \<subseteq> X"
  shows "search_space m \<subseteq> X"
proof
  fix t assume "t \<in> search_space m"
  then have "(start m, t) \<in> (neighbor_rel m)\<^sup>*" by (simp add: search_space_def)
  then show "t \<in> X"
    using assms by (induction rule: rtrancl_induct) auto
qed

lemma add_neighbors_states:
  "add_neighbors fr ex nd rest = Inr fr' \<Longrightarrow>
   states_of fr \<subseteq> states_of fr' \<and> states_of fr' \<subseteq> states_of fr \<union> snd ` set rest \<and>
   snd ` set rest \<subseteq> states_of fr' \<union> ex"
proof (induction rest arbitrary: fr)
  case Nil
  then show ?case by simp
next
  case (Cons x rest)
  obtain a t where x: "x = (a, t)" by (cases x)
  show ?case
  proof (cases "\<not> contains_state fr t \<and> t \<notin> ex")
    case False
    with Cons.prems have "add_neighbors fr ex nd rest = Inr fr'" unfolding x by auto
    from Cons.IH [OF this] False show ?thesis unfolding x
      by (auto simp: contains_state_iff)
  next
    case True
    from True Cons.prems obtain fr1 where
      a: "add fr (Node t (Some nd) (Some a)) = Inr fr1" and r: "add_neighbors fr1 ex nd rest = Inr fr'"
      unfolding x by (auto split: sum.splits)
    from add_states_of [OF a] have st: "states_of fr1 = insert t (states_of fr)" by simp
    from Cons.IH [OF r] show ?thesis unfolding x st by auto
  qed
qed

lemma reach_post_frame:
  assumes "same_grid m m2" "reach_post m2 r"
  shows "reach_post m r"
proof -
  from assms(1) have "goal m2 = goal m" by (simp add: same_grid_def)
  with assms(2) search_space_frame [OF assms(1)] show ?thesis
    by (cases r) (auto simp: reach_post_def)
qed

lemma solve_loop_reach:
  assumes "search_inv m fr" "reach_inv m fr" "solve_loop m fr = Some r"
  shows "reach_post m r"
  using assms
proof (induction "cells_left m" arbitrary: m fr rule: less_induct)
  case less
  note inv = search_invD [OF less.prems(1)]
  from less.prems(2) have ri: "goal m \<notin> explored m" "states_of fr \<subseteq> search_space m"
      "explored m \<subseteq> search_space m" "\<forall>s \<in> explored m. neighbor_rel m `` {s} \<subseteq> explored m \<union> states_of fr"
    by (auto simp: reach_inv_def)
  show ?case
  proof (cases "empty fr")
    case True
    then have "solve_loop m fr = Some (Inr (Some False, m, fr))"
      by (subst solve_loop.simps) simp
    with less.prems(3) have r: "r = Inr (Some False, m, fr)" by simp
    from True have e: "states_of fr = {}" by (simp add: empty_nodes_of states_of_def)
    from inv(7) e have "start m \<in> explored m" by simp
    moreover from ri(4) e have "\<forall>s \<in> explored m. neighbor_rel m `` {s} \<subseteq> explored m" by simp
    ultimately have "search_space m \<subseteq> explored m" by (rule search_space_closed)
    with ri(1,3) show ?thesis unfolding r by (auto simp: reach_post_def)
  next
    case False
    from remove_nodes_of [OF False] obtain nd fr1 where rem: "remove fr = Inr (nd, fr1)"
      by blast
    note rs = remove_states_of [OF rem]
    show ?thesis
    proof (cases "state nd = goal m")
      case True
      obtain acts cs where tb: "trace_back nd = (acts, cs)" by (cases "trace_back nd")
      have "solve_loop m fr = Some (Inr (Some True,
              m\<lparr>num_explored := num_explored m + 1, solution := Some (rev acts, rev cs)\<rparr>, fr1))"
        using rem False True tb by (subst solve_loop.simps) (simp add: Let_def)
      with less.prems(3) have r: "r = Inr (Some True,
              m\<lparr>num_explored := num_explored m + 1, solution := Some (rev acts, rev cs)\<rparr>, fr1)" by simp
      from ri(2) rs True have "goal m \<in> search_space m" by auto
      then show ?thesis unfolding r by (simp add: reach_post_def)
    next
      case ng: False
      let ?m2 = "m\<lparr>num_explored := num_explored m + 1, explored := insert (state nd) (explored m)\<rparr>"
      have g: "same_grid m ?m2" by (simp add: same_grid_def)
      have ex: "explored ?m2 = insert (state nd) (explored m)" by simp
      note rm = removed_inv [OF less.prems(1) rem g ex]
      have unfold: "solve_loop m fr =
          (case neighbors ?m2 (state nd) of
             Inl e \<Rightarrow> Some (Inl e)
           | Inr nbs \<Rightarrow>
               (case add_neighbors fr1 (insert (state nd) (explored m)) nd nbs of
                  Inl e \<Rightarrow> Some (Inl e)
                | Inr fr2 \<Rightarrow> solve_loop ?m2 fr2))"
        using rem ng False
        by (subst solve_loop.simps) (simp add: Let_def cong: sum.case_cong)
      show ?thesis
      proof (cases "neighbors ?m2 (state nd)")
        case (Inl e)
        with unfold less.prems(3) have "r = Inl e" by simp
        then show ?thesis by (simp add: reach_post_def)
      next
        case (Inr nbs)
        from add_neighbors_inv [OF rm(1,2,5) Inr order_refl] obtain fr2 where
          a: "add_neighbors fr1 (explored ?m2) nd nbs = Inr fr2" and i2: "search_inv ?m2 fr2"
          by blast
        from a have a': "add_neighbors fr1 (insert (state nd) (explored m)) nd nbs = Inr fr2" by simp
        note as = add_neighbors_states [OF a']
        have nr: "neighbor_rel ?m2 = neighbor_rel m" using g by (rule neighbor_rel_frame)
        have sp: "search_space ?m2 = search_space m" using g by (rule search_space_frame)
        have im: "neighbor_rel m `` {state nd} = snd ` set nbs"
          using neighbor_rel_Image [OF Inr] unfolding nr .
        from ri(2) rs have nd_in: "state nd \<in> search_space m" by auto
        have nb_in: "snd ` set nbs \<subseteq> search_space m"
          using search_space_step [OF nd_in] im by blast
        have "reach_inv ?m2 fr2"
          unfolding reach_inv_def nr sp
        proof (intro conjI ballI)
          show "goal ?m2 \<notin> explored ?m2" using ri(1) ng by auto
          show "states_of fr2 \<union> explored ?m2 \<subseteq> search_space m"
            using as ri(2,3) rs nb_in nd_in unfolding ex by blast
          fix s assume s: "s \<in> explored ?m2"
          show "neighbor_rel m `` {s} \<subseteq> explored ?m2 \<union> states_of fr2"
          proof (cases "s = state nd")
            case True
            with im as show ?thesis by auto
          next
            case False
            with s have "s \<in> explored m" by simp
            with ri(4) have "neighbor_rel m `` {s} \<subseteq> explored m \<union> states_of fr" by blast
            with rs as show ?thesis by auto
          qed
        qed
        moreover have "cells_left ?m2 < cells_left m"
          using g ex rm(3,4) by (rule cells_left_less)
        moreover have "solve_loop ?m2 fr2 = Some r"
          using less.prems(3) unfolding unfold Inr using a' by simp
        ultimately have "reach_post ?m2 r"
          using less.hyps [of ?m2 fr2 ] i2 by blast
        with g show ?thesis by (rule reach_post_frame)
      qed
    qed
  qed
qed

lemma solve_reach:
  assumes "empty fr" "solve m fr = Some r"
  shows "reach_post m r"
proof -
  let ?m2 = "m\<lparr>num_explored := 0, explored := {}\<rparr>"
  from add_start obtain fr1 where a: "add fr (Node (start m) None None) = Inr fr1" by blast
  then have a2: "add fr (Node (start ?m2) None None) = Inr fr1" by simp
  from start_inv [OF assms(1) a2] have si: "search_inv ?m2 fr1" by simp
  from add_states_of [OF a] assms(1) have st: "states_of fr1 = {start m}"
    by (simp add: states_of_def empty_nodes_of)
  have g: "same_grid m ?m2" by (simp add: same_grid_def)
  have "start m \<in> search_space m" by (simp add: search_space_def)
  then have "reach_inv ?m2 fr1"
    unfolding reach_inv_def search_space_frame [OF g] st by simp
  moreover have "solve_loop ?m2 fr1 = Some r"
    using assms(2) a by (simp add: solve_def Let_def)
  ultimately have "reach_post ?m2 r" using si by (intro solve_loop_reach)
  with g show ?thesis by (rule reach_post_frame)
qed

text \<open>
  The states of the maze object in \<^verbatim>\<open>main\<close> of \<^verbatim>\<open>laberinto.py\<close>: the maze the
  constructor made, and the maze after a call of \<^verbatim>\<open>solve_dfs\<close>, \<^verbatim>\<open>solve_bfs\<close> or
  \<^verbatim>\<open>move_player\<close> on such a state. In each of them a stored solution means that the goal
  can be had from the start cell.
\<close>

inductive laberinto_state :: "maze \<Rightarrow> bool" where
  constructed: "maze_init contents = Inr m \<Longrightarrow> laberinto_state m"
| after_solve_dfs: "laberinto_state m \<Longrightarrow> solve_dfs m = Some (Inr (b, m', fr')) \<Longrightarrow> laberinto_state m'"
| after_solve_bfs: "laberinto_state m \<Longrightarrow> solve_bfs m = Some (Inr (b, m', fr')) \<Longrightarrow> laberinto_state m'"
| after_move_player: "laberinto_state m \<Longrightarrow> move_player m direction = Inr m' \<Longrightarrow> laberinto_state m'"

definition solution_inv :: "maze \<Rightarrow> bool" where
  "solution_inv m = (solution m \<noteq> None \<longrightarrow> goal m \<in> search_space m)"

lemma solve_total:
  assumes "rectangular m" "empty fr"
  shows "\<exists>b m' fr'. solve m fr = Some (Inr (Some b, m', fr')) \<and>
           (b \<longleftrightarrow> reachable m (goal m)) \<and>
           (if b then \<exists>nd. good_node m nd \<and> state nd = goal m \<and>
                       solution m' = Some (rev (fst (trace_back nd)), rev (snd (trace_back nd))) \<and>
                       (start m \<noteq> goal m \<longrightarrow>
                          valid_solution m (rev (fst (trace_back nd)), rev (snd (trace_back nd))))
            else empty fr' \<and> solution m' = solution m \<and> explored m' = {t. reachable m t})"
proof -
  have v: "valid_solution m (rev (fst (trace_back nd)), rev (snd (trace_back nd)))"
    if "good_node m nd" "state nd = goal m" "start m \<noteq> goal m" for nd
    using that by (intro trace_back_valid) simp_all
  from solve_spec [OF assms(2)] obtain r where r: "solve m fr = Some r" "loop_post m r" by blast
  from loop_post_Inr [OF r(2) assms(1)] obtain b m' fr' where
    x: "r = Inr (Some b, m', fr')"
    and p: "if b then \<exists>nd. good_node m nd \<and> state nd = goal m \<and>
                       solution m' = Some (rev (fst (trace_back nd)), rev (snd (trace_back nd)))
            else empty fr' \<and> solution m' = solution m"
    by blast
  from solve_reach [OF assms(2) r(1)] have q: "reach_post m r" .
  note sp = search_space_rectangular [OF assms(1)]
  show ?thesis
  proof (cases b)
    case True
    with q x sp have "reachable m (goal m)" by (auto simp: reach_post_def)
    with True p r(1) x v show ?thesis by auto
  next
    case False
    with q x sp have "\<not> reachable m (goal m)" "explored m' = {t. reachable m t}"
      by (auto simp: reach_post_def)
    with False p r(1) x show ?thesis by auto
  qed
qed

lemma solve_start:
  "\<exists>fr0. add fr (Node (start m) None None) = Inr fr0 \<and>
     solve m fr = solve_loop (m\<lparr>num_explored := 0, explored := {}\<rparr>) fr0"
proof -
  from add_start obtain fr0 where a: "add fr (Node (start m) None None) = Inr fr0" by blast
  then have "solve m fr = solve_loop (m\<lparr>num_explored := 0, explored := {}\<rparr>) fr0"
    by (simp add: solve_def Let_def)
  with a show ?thesis by blast
qed

lemma solve_loop_empty: "empty fr \<Longrightarrow> solve_loop m fr = Some (Inr (Some False, m, fr))"
  by (subst solve_loop.simps) simp

lemma solve_loop_found:
  assumes "remove fr = Inr (nd, fr1)" "state nd = goal m"
  shows "solve_loop m fr = Some (Inr (Some True,
           m\<lparr>num_explored := num_explored m + 1,
             solution := Some (rev (fst (trace_back nd)), rev (snd (trace_back nd)))\<rparr>, fr1))"
  using assms remove_Inr_not_empty [OF assms(1)]
  by (subst solve_loop.simps) (simp add: Let_def split: prod.splits)

lemma blocked_solve:
  "\<exists>m' fr'. solve blocked_maze (QueueFrontier []) = Some (Inr (Some False, m', fr'))"
  by (simp add: solve_def blocked_maze_def solve_loop.simps neighbors_def wall_at_def py_index_def Let_def)

lemma good_node_in_space: "good_node m n \<Longrightarrow> state n \<in> search_space m"
proof (induction m n rule: good_node.induct)
  case (1 m s a)
  then show ?case by (simp add: search_space_def)
next
  case (2 m s p a)
  from "2.prems" obtain d nbs where d: "neighbors m (state p) = Inr nbs" "(d, s) \<in> set nbs"
    and gp: "good_node m p"
    by (auto split: option.splits sum.splits)
  from d have "(state p, s) \<in> neighbor_rel m" by (auto simp: neighbor_rel_def)
  from search_space_step [OF "2.IH" [OF gp] this] show ?case by simp
qed

lemma solve_solution_inv:
  assumes "solution_inv m" "empty fr" "solve m fr = Some (Inr (b, m', fr'))"
  shows "solution_inv m'" and "b = Some False \<Longrightarrow> empty fr' \<and> solution m' = None"
proof -
  from solve_spec [OF assms(2), of m] assms(3) have lp: "loop_post m (Inr (b, m', fr'))" by auto
  from solve_reach [OF assms(2,3)] have rp: "reach_post m (Inr (b, m', fr'))" .
  from lp have g: "same_grid m m'" by (simp add: loop_post_def)
  then have gl: "goal m' = goal m" by (simp add: same_grid_def)
  note sp = search_space_frame [OF g]
  from lp have bb: "b = Some True \<or> b = Some False" by (auto simp: loop_post_def)
  have f: "empty fr' \<and> solution m' = None" if "b = Some False"
  proof -
    from that rp have "goal m \<notin> search_space m" by (simp add: reach_post_def)
    with assms(1) have "solution m = None" by (cases "solution m") (simp_all add: solution_inv_def)
    with that lp show ?thesis by (simp add: loop_post_def)
  qed
  then show "b = Some False \<Longrightarrow> empty fr' \<and> solution m' = None" .
  show "solution_inv m'"
    using bb
  proof
    assume "b = Some True"
    with rp show ?thesis by (simp add: solution_inv_def reach_post_def sp gl)
  next
    assume "b = Some False"
    from f [OF this] show ?thesis by (simp add: solution_inv_def)
  qed
qed

lemma move_player_frame:
  "move_player m d = Inr m' \<Longrightarrow> same_grid m m' \<and> solution m' = solution m"
  by (auto simp: move_player_def same_grid_def split: option.splits if_splits sum.splits prod.splits)

lemma laberinto_state_inv: "laberinto_state m \<Longrightarrow> solution_inv m"
proof (induction rule: laberinto_state.induct)
  case (constructed contents m)
  then have "solution m = None"
    by (auto simp: maze_init_def Let_def split: if_splits list.splits)
  then show ?case by (simp add: solution_inv_def)
next
  case (after_solve_dfs m b m' fr')
  from solve_solution_inv(1) [OF after_solve_dfs.IH _ after_solve_dfs.hyps(2) [unfolded solve_dfs_def]]
  show ?case by simp
next
  case (after_solve_bfs m b m' fr')
  from solve_solution_inv(1) [OF after_solve_bfs.IH _ after_solve_bfs.hyps(2) [unfolded solve_bfs_def]]
  show ?case by simp
next
  case (after_move_player m direction m')
  from move_player_frame [OF after_move_player.hyps(2)] search_space_frame [of m m'] after_move_player.IH
  show ?case by (auto simp: solution_inv_def same_grid_def)
qed

lemma blocked_unreachable: "\<not> reachable blocked_maze (goal blocked_maze)"
proof -
  have "rectangular blocked_maze" "empty (QueueFrontier [])"
    by (simp_all add: rectangular_def blocked_maze_def)
  from solve_total [OF this] blocked_solve show ?thesis by auto
qed

lemma blocked_laberinto_state: "laberinto_state blocked_maze"
  using blocked_maze_init by (rule laberinto_state.constructed)

section \<open>The search: results\<close>

text \<open>
  C1 (as amended). In \<^verbatim>\<open>laberinto.py\<close>, \<^verbatim>\<open>solve(frontier)\<close> inserts the start node
  into the frontier and runs the loop on the maze with \<^verbatim>\<open>num_explored = 0\<close> and no
  explored cell; the loop returns \<^verbatim>\<open>False\<close> when it finds the frontier empty, and when
  the node it removes has the goal state it stores the solution reconstructed from that
  node and returns \<^verbatim>\<open>True\<close>. For every maze whose grid is rectangular and every empty
  frontier of one of the four strategies the call returns a boolean: \<^verbatim>\<open>True\<close> exactly
  when the goal is reachable from the start cell, the stored solution being then the one
  reconstructed from a node of the search whose state is the goal (a valid solution, the
  start and the goal being two cells); \<^verbatim>\<open>False\<close> otherwise, with the frontier empty,
  every reachable cell and no other explored, and the stored solution as it was before
  the call. In \<^verbatim>\<open>laberintoFinal.py\<close>,
  \<^verbatim>\<open>solve(frontier)\<close> inserts the start node into the frontier and returns \<^verbatim>\<open>None\<close>,
  for every maze and frontier; the loop is left to the callers of \<^verbatim>\<open>step\<close>.
\<close>

theorem solve_returns_boolean:
  "(rectangular m \<and> empty fr \<longrightarrow>
      (\<exists>b m' fr'. solve m fr = Some (Inr (Some b, m', fr')) \<and>
         (b \<longleftrightarrow> reachable m (goal m)) \<and>
         (if b then \<exists>nd. good_node m nd \<and> state nd = goal m \<and>
                     solution m' = Some (rev (fst (trace_back nd)), rev (snd (trace_back nd))) \<and>
                     (start m \<noteq> goal m \<longrightarrow>
                        valid_solution m (rev (fst (trace_back nd)), rev (snd (trace_back nd))))
          else empty fr' \<and> solution m' = solution m \<and> explored m' = {t. reachable m t})))
   \<and> (\<exists>fr0. add fr (Node (start m) None None) = Inr fr0 \<and>
          solve m fr = solve_loop (m\<lparr>num_explored := 0, explored := {}\<rparr>) fr0)
   \<and> (empty fq \<longrightarrow> solve_loop mq fq = Some (Inr (Some False, mq, fq)))
   \<and> (remove fq = Inr (nd, fq1) \<and> state nd = goal mq \<longrightarrow>
        solve_loop mq fq = Some (Inr (Some True,
           mq\<lparr>num_explored := num_explored mq + 1,
              solution := Some (rev (fst (trace_back nd)), rev (snd (trace_back nd)))\<rparr>, fq1)))
   \<and> (\<exists>m1 fr1. solve_final m fr = Inr (None, m1, fr1) \<and> add fr (Node (start m) None None) = Inr fr1)"
proof (intro conjI impI)
  assume "rectangular m \<and> empty fr"
  then show "\<exists>b m' fr'. solve m fr = Some (Inr (Some b, m', fr')) \<and>
         (b \<longleftrightarrow> reachable m (goal m)) \<and>
         (if b then \<exists>nd. good_node m nd \<and> state nd = goal m \<and>
                     solution m' = Some (rev (fst (trace_back nd)), rev (snd (trace_back nd))) \<and>
                     (start m \<noteq> goal m \<longrightarrow>
                        valid_solution m (rev (fst (trace_back nd)), rev (snd (trace_back nd))))
          else empty fr' \<and> solution m' = solution m \<and> explored m' = {t. reachable m t})"
    using solve_total [of m fr] by blast
next
  show "\<exists>fr0. add fr (Node (start m) None None) = Inr fr0 \<and>
          solve m fr = solve_loop (m\<lparr>num_explored := 0, explored := {}\<rparr>) fr0"
    by (rule solve_start)
next
  assume "empty fq"
  then show "solve_loop mq fq = Some (Inr (Some False, mq, fq))" by (rule solve_loop_empty)
next
  assume "remove fq = Inr (nd, fq1) \<and> state nd = goal mq"
  then show "solve_loop mq fq = Some (Inr (Some True,
           mq\<lparr>num_explored := num_explored mq + 1,
              solution := Some (rev (fst (trace_back nd)), rev (snd (trace_back nd)))\<rparr>, fq1))"
    using solve_loop_found [of fq nd fq1 mq] by blast
next
  from solve_final_spec [of m fr]
  show "\<exists>m1 fr1. solve_final m fr = Inr (None, m1, fr1) \<and> add fr (Node (start m) None None) = Inr fr1"
    by blast
qed

theorem solve_returns_boolean_witness:
  "rectangular corridor_maze \<and> empty (StackFrontier []) \<and> start corridor_maze \<noteq> goal corridor_maze \<and>
   (\<exists>m' fr' nd. solve corridor_maze (StackFrontier []) = Some (Inr (Some True, m', fr')) \<and>
       reachable corridor_maze (goal corridor_maze) \<and>
       good_node corridor_maze nd \<and> state nd = goal corridor_maze \<and>
       solution m' = Some (rev (fst (trace_back nd)), rev (snd (trace_back nd))) \<and>
       valid_solution corridor_maze (rev (fst (trace_back nd)), rev (snd (trace_back nd)))) \<and>
   rectangular blocked_maze \<and> empty (QueueFrontier []) \<and>
   (\<exists>m' fr'. solve blocked_maze (QueueFrontier []) = Some (Inr (Some False, m', fr')) \<and>
       \<not> reachable blocked_maze (goal blocked_maze) \<and> empty fr' \<and>
       explored m' = {t. reachable blocked_maze t}) \<and>
   solve_loop corridor_maze (StackFrontier []) = Some (Inr (Some False, corridor_maze, StackFrontier [])) \<and>
   remove (StackFrontier [Node (0, 2) None None]) = Inr (Node (0, 2) None None, StackFrontier []) \<and>
   state (Node (0, 2) None None) = goal corridor_maze \<and>
   solve_loop corridor_maze (StackFrontier [Node (0, 2) None None])
     = Some (Inr (Some True,
         corridor_maze\<lparr>num_explored := num_explored corridor_maze + 1,
            solution := Some (rev (fst (trace_back (Node (0, 2) None None))),
                              rev (snd (trace_back (Node (0, 2) None None))))\<rparr>,
         StackFrontier []))"
proof -
  have h: "rectangular corridor_maze" "empty (StackFrontier [])"
      "rectangular blocked_maze" "empty (QueueFrontier [])"
      "remove (StackFrontier [Node (0, 2) None None]) = Inr (Node (0, 2) None None, StackFrontier [])"
      "state (Node (0, 2) None None) = goal corridor_maze"
      "start corridor_maze \<noteq> goal corridor_maze"
    by (simp_all add: rectangular_def corridor_maze_def blocked_maze_def)
  from corridor_solve obtain mc fc where
    c: "solve corridor_maze (StackFrontier []) = Some (Inr (Some True, mc, fc))" by blast
  from blocked_solve obtain mb fb where
    b: "solve blocked_maze (QueueFrontier []) = Some (Inr (Some False, mb, fb))" by blast
  from solve_returns_boolean [where m = corridor_maze and fr = "StackFrontier []"
      and fq = "StackFrontier []" and mq = corridor_maze] h(1,2,7) c
  have 1: "\<exists>nd. reachable corridor_maze (goal corridor_maze) \<and>
       good_node corridor_maze nd \<and> state nd = goal corridor_maze \<and>
       solution mc = Some (rev (fst (trace_back nd)), rev (snd (trace_back nd))) \<and>
       valid_solution corridor_maze (rev (fst (trace_back nd)), rev (snd (trace_back nd)))"
    and 3: "solve_loop corridor_maze (StackFrontier []) = Some (Inr (Some False, corridor_maze, StackFrontier []))"
    by auto
  from solve_returns_boolean [where m = blocked_maze and fr = "QueueFrontier []"] h(3,4) b
  have 2: "\<not> reachable blocked_maze (goal blocked_maze) \<and> empty fb \<and>
       explored mb = {t. reachable blocked_maze t}"
    by auto
  from solve_returns_boolean [where fq = "StackFrontier [Node (0, 2) None None]"
      and nd = "Node (0, 2) None None" and ?fq1.0 = "StackFrontier []" and mq = corridor_maze] h(5,6)
  have 4: "solve_loop corridor_maze (StackFrontier [Node (0, 2) None None])
     = Some (Inr (Some True,
         corridor_maze\<lparr>num_explored := num_explored corridor_maze + 1,
            solution := Some (rev (fst (trace_back (Node (0, 2) None None))),
                              rev (snd (trace_back (Node (0, 2) None None))))\<rparr>,
         StackFrontier []))"
    by blast
  from h c b 1 2 3 4 show ?thesis by blast
qed

text \<open>
  The claim as it was stated fails for \<^verbatim>\<open>solve\<close> of \<^verbatim>\<open>laberintoFinal.py\<close>: on the maze
  of the text \<^verbatim>\<open>"A B"\<close> and a new \<open>StackFrontier\<close> the value returned is \<^verbatim>\<open>None\<close>, no
  boolean.
\<close>

theorem solve_final_returns_none_counterexample:
  "map_sum id fst (solve_final corridor_maze (StackFrontier [])) = Inr None"
  by (simp add: solve_final_def Let_def)

text \<open>
  C3. The claim is that \<^verbatim>\<open>step\<close> returns \<^verbatim>\<open>True\<close> exactly when the node it removed has
  the goal state and \<^verbatim>\<open>False\<close> in every other case. On the maze of the text \<^verbatim>\<open>"A \nB"\<close>,
  after \<^verbatim>\<open>solve\<close> with a new \<open>StackFrontier\<close> and one call of \<^verbatim>\<open>step\<close>, the second call
  removes the node at (0, 1), which is not the goal (1, 0), and raises \<^verbatim>\<open>IndexError\<close>
  in \<^verbatim>\<open>neighbors\<close>, where \<^verbatim>\<open>self.walls[1][1]\<close> reads past the end of the second row.
\<close>

theorem step_ragged_index_error:
  "\<exists>m m1 fr1 m2 fr2 nd fr3.
     maze_init ragged_text = Inr m \<and>
     solve_final m (StackFrontier []) = Inr (None, m1, fr1) \<and>
     step m1 fr1 = Inr (False, m2, fr2) \<and>
     remove fr2 = Inr (nd, fr3) \<and> state nd = (0, 1) \<and> goal m2 = (1, 0) \<and>
     step m2 fr2 = Inl IndexError"
  by (simp add: ragged_text_def maze_init_def splitlines_def positions_def enumerate_eq_zip
      linebreak_def solve_final_def step_def neighbors_def wall_at_def py_index_def Let_def)

theorem step_ragged_index_error_witness:
  "count_list ragged_text CHR ''A'' = 1 \<and> count_list ragged_text CHR ''B'' = 1 \<and>
   (\<exists>m m1 fr1 m2 fr2 nd fr3.
     maze_init ragged_text = Inr m \<and>
     solve_final m (StackFrontier []) = Inr (None, m1, fr1) \<and>
     step m1 fr1 = Inr (False, m2, fr2) \<and>
     remove fr2 = Inr (nd, fr3) \<and> state nd = (0, 1) \<and> goal m2 = (1, 0) \<and>
     step m2 fr2 = Inl IndexError)"
proof -
  have "count_list ragged_text CHR ''A'' = 1 \<and> count_list ragged_text CHR ''B'' = 1"
    by (simp add: ragged_text_def)
  with step_ragged_index_error show ?thesis by blast
qed

text \<open>
  On a rectangular grid, in a state of a search, \<^verbatim>\<open>step\<close> does return, and \<^verbatim>\<open>True\<close>
  exactly when it removed a node whose state is the goal.
\<close>

lemma step_rectangular:
  assumes "search_inv m fr" "rectangular m"
  shows "\<exists>b m' fr'. step m fr = Inr (b, m', fr') \<and>
           (b \<longleftrightarrow> (\<exists>nd fr1. remove fr = Inr (nd, fr1) \<and> state nd = goal m))"
  using step_inv_cases [OF assms(1)] assms(2) remove_empty [of fr]
  by (elim disjE exE conjE) auto

lemma steps_rectangular:
  "search_inv m fr \<Longrightarrow> rectangular m \<Longrightarrow> \<exists>b m' fr'. steps k m fr = Inr (b, m', fr')"
proof (induction k arbitrary: m fr)
  case 0
  show ?case by (intro exI [of _ False]) simp
next
  case (Suc k)
  from step_inv_cases [OF Suc.prems(1)] Suc.prems(2)
  consider (e) "step m fr = Inr (False, m, fr)"
    | (f) m1 fr1 where "step m fr = Inr (True, m1, fr1)"
    | (s) m1 fr1 where "step m fr = Inr (False, m1, fr1)" "search_inv m1 fr1" "same_grid m m1"
    by blast
  then show ?case
  proof cases
    case e
    with Suc.IH [OF Suc.prems] show ?thesis by simp
  next
    case f
    then show ?thesis by (intro exI [of _ True]) simp
  next
    case s
    from rectangular_frame [OF s(3)] Suc.prems(2) have "rectangular m1" by simp
    from Suc.IH [OF s(2) this] s(1) show ?thesis by simp
  qed
qed

lemma steps_exhaust:
  assumes "rectangular m" "empty fr" "\<not> reachable m (goal m)"
  shows "\<exists>m1 fr1 k m2 fr2. solve_final m fr = Inr (None, m1, fr1) \<and>
           steps k m1 fr1 = Inr (False, m2, fr2) \<and> empty fr2 \<and> solution m2 = None"
proof -
  from solve_final_spec [of m fr] assms(2) obtain m1 fr1 where
    s: "solve_final m fr = Inr (None, m1, fr1)" "same_grid m m1" "solution m1 = None" "search_inv m1 fr1"
    by blast
  from rectangular_frame [OF s(2)] assms(1) have r1: "rectangular m1" by simp
  from steps_finish [OF s(4)] obtain k where k: "finished (steps k m1 fr1)" by blast
  from steps_rectangular [OF s(4) r1, of k] obtain b m2 fr2 where
    st: "steps k m1 fr1 = Inr (b, m2, fr2)" by blast
  have "\<not> b"
  proof
    assume b
    with st steps_found [OF s(4), of k m2 fr2] obtain nd where "good_node m1 nd" "state nd = goal m1"
      by auto
    with good_node_in_space [of m1 nd] have "goal m1 \<in> search_space m1" by simp
    with search_space_rectangular [OF r1] have "reachable m1 (goal m1)" by simp
    moreover from s(2) have "goal m1 = goal m" by (simp add: same_grid_def)
    moreover have "search_space m1 = search_space m" using s(2) by (rule search_space_frame)
    ultimately have "reachable m (goal m)"
      using search_space_rectangular [OF r1] search_space_rectangular [OF assms(1)] by auto
    with assms(3) show False by simp
  qed
  with k st have e: "empty fr2" and st': "steps k m1 fr1 = Inr (False, m2, fr2)"
    by (simp_all add: finished_def)
  from steps_False_frame [OF st'] s(3) have "solution m2 = None" by simp
  with s(1) st' e show ?thesis by blast
qed

text \<open>
  C6 (as amended). \<^verbatim>\<open>solve\<close> of \<^verbatim>\<open>laberintoFinal.py\<close> clears the stored solution and
  returns \<^verbatim>\<open>None\<close>; as long as the calls of \<^verbatim>\<open>step\<close> that follow it return \<^verbatim>\<open>False\<close> the
  solution is unset, and when the goal is not reachable (on a rectangular grid, from a
  new frontier) they do so until the frontier is empty. \<^verbatim>\<open>solve\<close> of \<^verbatim>\<open>laberinto.py\<close>
  leaves in the maze the solution its own search reconstructed when it returns \<^verbatim>\<open>True\<close>;
  when the goal is not reachable (rectangular grid, new frontier) it returns \<^verbatim>\<open>False\<close>;
  and whenever it returns \<^verbatim>\<open>False\<close>, in a state of the maze that \<^verbatim>\<open>main\<close> can be in (made
  by the constructor, then changed by calls of \<^verbatim>\<open>solve_dfs\<close>, \<^verbatim>\<open>solve_bfs\<close> and
  \<^verbatim>\<open>move_player\<close>), the frontier is empty and the solution is unset.
\<close>

theorem failed_search_leaves_solution_unset:
  "(\<exists>m1 fr1. solve_final m fr = Inr (None, m1, fr1) \<and> solution m1 = None)
   \<and> (solve_final m fr = Inr (x, m1, fr1) \<and> steps k m1 fr1 = Inr (False, m2, fr2) \<longrightarrow> solution m2 = None)
   \<and> (rectangular m \<and> empty fr \<and> \<not> reachable m (goal m) \<longrightarrow>
        (\<exists>m1 fr1 k m2 fr2. solve_final m fr = Inr (None, m1, fr1) \<and>
            steps k m1 fr1 = Inr (False, m2, fr2) \<and> empty fr2 \<and> solution m2 = None))
   \<and> (laberinto_state ml \<and> empty fl \<and> solve ml fl = Some (Inr (Some False, ml', fl')) \<longrightarrow>
        empty fl' \<and> solution ml' = None)
   \<and> (rectangular ml \<and> empty fl \<and> \<not> reachable ml (goal ml) \<longrightarrow>
        (\<exists>ml' fl'. solve ml fl = Some (Inr (Some False, ml', fl'))))
   \<and> (empty fl \<and> solve ml fl = Some (Inr (Some True, ml', fl')) \<longrightarrow>
        (\<exists>nd. good_node ml nd \<and> state nd = goal ml \<and>
           solution ml' = Some (rev (fst (trace_back nd)), rev (snd (trace_back nd)))))"
proof (intro conjI impI)
  from solve_final_spec [of m fr]
  show "\<exists>m1 fr1. solve_final m fr = Inr (None, m1, fr1) \<and> solution m1 = None" by blast
next
  assume a: "solve_final m fr = Inr (x, m1, fr1) \<and> steps k m1 fr1 = Inr (False, m2, fr2)"
  with solve_final_spec [of m fr] have "solution m1 = None" by auto
  with a steps_False_frame [of k m1 fr1 m2 fr2] show "solution m2 = None" by simp
next
  assume "rectangular m \<and> empty fr \<and> \<not> reachable m (goal m)"
  then show "\<exists>m1 fr1 k m2 fr2. solve_final m fr = Inr (None, m1, fr1) \<and>
            steps k m1 fr1 = Inr (False, m2, fr2) \<and> empty fr2 \<and> solution m2 = None"
    using steps_exhaust [of m fr] by blast
next
  assume a: "laberinto_state ml \<and> empty fl \<and> solve ml fl = Some (Inr (Some False, ml', fl'))"
  then have "solution_inv ml" by (simp add: laberinto_state_inv)
  from solve_solution_inv(2) [OF this] a
  show "empty fl'" "solution ml' = None" by blast+
next
  assume "rectangular ml \<and> empty fl \<and> \<not> reachable ml (goal ml)"
  with solve_total [of ml fl] show "\<exists>ml' fl'. solve ml fl = Some (Inr (Some False, ml', fl'))"
    by auto
next
  assume a: "empty fl \<and> solve ml fl = Some (Inr (Some True, ml', fl'))"
  with solve_spec [of fl ml] have "loop_post ml (Inr (Some True, ml', fl'))" by auto
  then show "\<exists>nd. good_node ml nd \<and> state nd = goal ml \<and>
           solution ml' = Some (rev (fst (trace_back nd)), rev (snd (trace_back nd)))"
    by (simp add: loop_post_def)
qed

theorem failed_search_leaves_solution_unset_witness:
  "(\<exists>m1 fr1 m2 fr2. solve_final blocked_maze (QueueFrontier []) = Inr (None, m1, fr1) \<and>
       steps (Suc (Suc 0)) m1 fr1 = Inr (False, m2, fr2) \<and> solution m1 = None \<and> solution m2 = None)
   \<and> laberinto_state blocked_maze \<and> empty (QueueFrontier [])
   \<and> rectangular blocked_maze \<and> \<not> reachable blocked_maze (goal blocked_maze)
   \<and> (\<exists>m1 fr1 k m2 fr2. solve_final blocked_maze (QueueFrontier []) = Inr (None, m1, fr1) \<and>
            steps k m1 fr1 = Inr (False, m2, fr2) \<and> empty fr2 \<and> solution m2 = None)
   \<and> (\<exists>m' fr'. solve blocked_maze (QueueFrontier []) = Some (Inr (Some False, m', fr'))
        \<and> empty fr' \<and> solution m' = None)
   \<and> empty (StackFrontier [])
   \<and> (\<exists>m' fr' nd. solve corridor_maze (StackFrontier []) = Some (Inr (Some True, m', fr'))
        \<and> good_node corridor_maze nd \<and> state nd = goal corridor_maze
        \<and> solution m' = Some (rev (fst (trace_back nd)), rev (snd (trace_back nd))))"
proof -
  have h: "laberinto_state blocked_maze" "empty (QueueFrontier [])" "rectangular blocked_maze"
      "\<not> reachable blocked_maze (goal blocked_maze)" "empty (StackFrontier [])"
    using blocked_laberinto_state blocked_unreachable
    by (simp_all add: rectangular_def blocked_maze_def)
  have "\<exists>m1 fr1 m2 fr2. solve_final blocked_maze (QueueFrontier []) = Inr (None, m1, fr1) \<and>
       steps (Suc (Suc 0)) m1 fr1 = Inr (False, m2, fr2)"
    by (simp add: solve_final_def blocked_maze_def step_def neighbors_def wall_at_def py_index_def Let_def)
  then obtain m1 fr1 m2 fr2 where
    r: "solve_final blocked_maze (QueueFrontier []) = Inr (None, m1, fr1)"
       "steps (Suc (Suc 0)) m1 fr1 = Inr (False, m2, fr2)"
    by blast
  from corridor_solve obtain mc fc where
    t: "solve corridor_maze (StackFrontier []) = Some (Inr (Some True, mc, fc))" by blast
  note c = failed_search_leaves_solution_unset [where ml = blocked_maze and fl = "QueueFrontier []"]
  from c [where m = blocked_maze and fr = "QueueFrontier []" and x = None and ?m1.0 = m1 and ?fr1.0 = fr1
        and k = "Suc (Suc 0)" and ?m2.0 = m2 and ?fr2.0 = fr2] r h
  have 1: "solution m1 = None \<and> solution m2 = None"
    and 3: "\<exists>m1 fr1 k m2 fr2. solve_final blocked_maze (QueueFrontier []) = Inr (None, m1, fr1) \<and>
            steps k m1 fr1 = Inr (False, m2, fr2) \<and> empty fr2 \<and> solution m2 = None"
    by auto
  from c [where m = blocked_maze and fr = "QueueFrontier []"] h
  obtain m' fr' where s: "solve blocked_maze (QueueFrontier []) = Some (Inr (Some False, m', fr'))"
    by blast
  from c [where ml' = m' and fl' = fr'] h s
  have 2: "empty fr' \<and> solution m' = None" by blast
  from failed_search_leaves_solution_unset [where ml = corridor_maze and fl = "StackFrontier []"
      and ml' = mc and fl' = fc] h(5) t
  have 4: "\<exists>nd. good_node corridor_maze nd \<and> state nd = goal corridor_maze
        \<and> solution mc = Some (rev (fst (trace_back nd)), rev (snd (trace_back nd)))"
    by blast
  from h r 1 3 s 2 t 4 show ?thesis by blast
qed

text \<open>
  The claim as it was stated fails for \<^verbatim>\<open>solve\<close> of \<^verbatim>\<open>laberintoFinal.py\<close>. On the maze
  of the text \<^verbatim>\<open>"A#B"\<close>, whose goal cannot be reached, \<^verbatim>\<open>solve\<close> with a new
  \<open>StackFrontier\<close> returns \<^verbatim>\<open>None\<close>, not failure, and leaves the start node in the
  frontier; the one call of \<^verbatim>\<open>step\<close> that exhausts the frontier returns \<^verbatim>\<open>False\<close>.
\<close>

theorem solve_final_no_failure_counterexample:
  "solve_final blocked_maze (StackFrontier [])
     = Inr (None, blocked_maze, StackFrontier [Node (0, 0) None None]) \<and>
   map_sum id fst (step blocked_maze (StackFrontier [Node (0, 0) None None])) = Inr False \<and>
   map_sum id (empty \<circ> snd \<circ> snd) (step blocked_maze (StackFrontier [Node (0, 0) None None])) = Inr True"
  by (simp add: solve_final_def blocked_maze_def step_def neighbors_def wall_at_def py_index_def Let_def)

text \<open>
  C9. For every maze and every empty frontier of one of the four strategies, \<^verbatim>\<open>solve\<close>
  of \<^verbatim>\<open>laberinto.py\<close> returns (a boolean, or the exception of \<^verbatim>\<open>neighbors\<close>), and after
  \<^verbatim>\<open>solve\<close> of \<^verbatim>\<open>laberintoFinal.py\<close> some number of \<^verbatim>\<open>step\<close> calls finishes the search.
  The reason is the invariant: a call of \<^verbatim>\<open>step\<close> that expands a node keeps the states
  of the frontier distinct and unexplored, and adds to the explored set one cell that
  was not in it.
\<close>

theorem search_terminates:
  "(empty fr \<longrightarrow>
      (\<exists>r. solve m fr = Some r) \<and>
      (\<exists>m1 fr1 k. solve_final m fr = Inr (None, m1, fr1) \<and> search_inv m1 fr1 \<and> finished (steps k m1 fr1)))
   \<and> (search_inv m fr \<and> \<not> empty fr \<and> step m fr = Inr (False, m', fr') \<longrightarrow>
        search_inv m' fr' \<and> (\<exists>s. s \<notin> explored m \<and> explored m' = insert s (explored m)))"
proof (intro conjI impI)
  assume e: "empty fr"
  from solve_spec [OF e, of m] show "\<exists>r. solve m fr = Some r" by blast
  from solve_final_spec [of m fr] e obtain m1 fr1 where
    s: "solve_final m fr = Inr (None, m1, fr1)" "search_inv m1 fr1"
    by blast
  from steps_finish [OF s(2)] s
  show "\<exists>m1 fr1 k. solve_final m fr = Inr (None, m1, fr1) \<and> search_inv m1 fr1 \<and> finished (steps k m1 fr1)"
    by blast
next
  assume a: "search_inv m fr \<and> \<not> empty fr \<and> step m fr = Inr (False, m', fr')"
  with step_inv_cases [of m fr]
  have "\<exists>nd. search_inv m' fr' \<and> state nd \<notin> explored m \<and> explored m' = insert (state nd) (explored m)"
    by (elim disjE exE conjE) auto
  then show "search_inv m' fr'" "\<exists>s. s \<notin> explored m \<and> explored m' = insert s (explored m)"
    by blast+
qed

theorem search_terminates_witness:
  "empty (AStarFrontier_init (0, 0) (0, 2)) \<and>
   (\<exists>r. solve blocked_maze (AStarFrontier_init (0, 0) (0, 2)) = Some r) \<and>
   (\<exists>m1 fr1 k. solve_final blocked_maze (AStarFrontier_init (0, 0) (0, 2)) = Inr (None, m1, fr1)
       \<and> finished (steps k m1 fr1)) \<and>
   search_inv corridor_maze (StackFrontier [Node (0, 0) None None]) \<and>
   \<not> empty (StackFrontier [Node (0, 0) None None]) \<and>
   (\<exists>m' fr'. step corridor_maze (StackFrontier [Node (0, 0) None None]) = Inr (False, m', fr') \<and>
      search_inv m' fr' \<and>
      (\<exists>s. s \<notin> explored corridor_maze \<and> explored m' = insert s (explored corridor_maze)))"
proof -
  have h: "empty (AStarFrontier_init (0, 0) (0, 2))"
    by (simp add: AStarFrontier_init_def)
  from corridor_first_step obtain m' fr' where
    c: "search_inv corridor_maze (StackFrontier [Node (0, 0) None None])"
       "\<not> empty (StackFrontier [Node (0, 0) None None])"
       "step corridor_maze (StackFrontier [Node (0, 0) None None]) = Inr (False, m', fr')"
    by blast
  from search_terminates [where fr = "AStarFrontier_init (0, 0) (0, 2)" and m = blocked_maze] h
  have 1: "(\<exists>r. solve blocked_maze (AStarFrontier_init (0, 0) (0, 2)) = Some r) \<and>
   (\<exists>m1 fr1 k. solve_final blocked_maze (AStarFrontier_init (0, 0) (0, 2)) = Inr (None, m1, fr1)
       \<and> finished (steps k m1 fr1))"
    by blast
  from search_terminates [where fr = "StackFrontier [Node (0, 0) None None]" and m = corridor_maze
      and m' = m' and fr' = fr'] c
  have 2: "search_inv m' fr' \<and>
      (\<exists>s. s \<notin> explored corridor_maze \<and> explored m' = insert s (explored corridor_maze))"
    by blast
  from h 1 c 2 show ?thesis by blast
qed

text \<open>
  In a maze whose start and goal differ (as in every maze the constructor makes), when
  a search begun with a new, empty frontier reports success, by \<^verbatim>\<open>solve\<close> of
  \<^verbatim>\<open>laberinto.py\<close> returning \<^verbatim>\<open>True\<close> or by a \<^verbatim>\<open>step\<close> call after \<^verbatim>\<open>solve\<close> of
  \<^verbatim>\<open>laberintoFinal.py\<close> returning \<^verbatim>\<open>True\<close>, the stored solution is valid: actions and
  cells have the same length, the start cell is not among the cells, the last cell is
  the goal, every cell is in the grid and no wall, and the actions applied in order from
  the start cell give exactly the cells.
\<close>

lemma solution_valid_new_frontier:
  "start m \<noteq> goal m \<and> empty fr \<longrightarrow>
     (\<forall>m' fr'. solve m fr = Some (Inr (Some True, m', fr')) \<longrightarrow>
        (\<exists>sol. solution m' = Some sol \<and> valid_solution m sol))
   \<and> (\<forall>m1 fr1 k m' fr'. solve_final m fr = Inr (None, m1, fr1) \<and> steps k m1 fr1 = Inr (True, m', fr') \<longrightarrow>
        (\<exists>sol. solution m' = Some sol \<and> valid_solution m sol))"
proof (intro conjI impI allI)
  fix m' fr'
  assume a: "start m \<noteq> goal m \<and> empty fr" and s: "solve m fr = Some (Inr (Some True, m', fr'))"
  from a solve_spec [of fr m] s have "loop_post m (Inr (Some True, m', fr'))" by auto
  then obtain nd where nd: "good_node m nd" "state nd = goal m"
      "solution m' = Some (rev (fst (trace_back nd)), rev (snd (trace_back nd)))"
    by (auto simp: loop_post_def)
  from a have "start m \<noteq> goal m" by simp
  from trace_back_valid [OF nd(1,2) this surjective_pairing] nd(3)
  show "\<exists>sol. solution m' = Some sol \<and> valid_solution m sol" by blast
next
  fix m1 fr1 k m' fr'
  assume a: "start m \<noteq> goal m \<and> empty fr"
    and s: "solve_final m fr = Inr (None, m1, fr1) \<and> steps k m1 fr1 = Inr (True, m', fr')"
  from solve_final_spec [of m fr] a s have i: "search_inv m1 fr1" "same_grid m m1"
    by auto
  from steps_found [OF i(1)] s obtain nd where nd: "good_node m1 nd" "state nd = goal m1"
      "solution m' = Some (rev (fst (trace_back nd)), rev (snd (trace_back nd)))"
    by blast
  from nd(1,2) i(2) have "good_node m nd" "state nd = goal m"
    using good_node_same_grid [OF i(2)] by (simp_all add: same_grid_def)
  moreover from a have "start m \<noteq> goal m" by simp
  ultimately have "valid_solution m (rev (fst (trace_back nd)), rev (snd (trace_back nd)))"
    by (intro trace_back_valid) simp_all
  with nd(3) show "\<exists>sol. solution m' = Some sol \<and> valid_solution m sol" by blast
qed

text \<open>
  C10. The claim is that the stored solution is valid whenever a search reports success.
  In \<^verbatim>\<open>main\<close> of \<^verbatim>\<open>laberintoFinal.py\<close> the search is not always begun with a new
  frontier: the menu entries \<^verbatim>\<open>'Greedy'\<close> and \<^verbatim>\<open>'A*'\<close> leave in \<^verbatim>\<open>frontier\<close> the frontier
  of the search before. With the maze of the text \<^verbatim>\<open>"A B"\<close>, choose depth-first search
  and let two frames call \<^verbatim>\<open>step\<close>: the stack then holds the node at (0, 2), whose
  parent is the node at (0, 1). Choose the maze of the text \<^verbatim>\<open>"A#B"\<close>, then \<^verbatim>\<open>'Greedy'\<close>:
  \<^verbatim>\<open>solve\<close> puts the start node on that stack, the first \<^verbatim>\<open>step\<close> removes it, and the
  second removes the node at (0, 2), which is the goal, and returns \<^verbatim>\<open>True\<close>. The
  solution stored has the cells (0, 1), (0, 2), and (0, 1) is a wall of this maze.
\<close>

theorem reused_frontier_invalid_solution:
  "\<exists>m0 m1 f1 m2 f2 m3 f3 m4 m5 f5 m6 f6 m7 f7.
     maze_init ''A B'' = Inr m0 \<and>
     solve_selected Profundidad m0 None = Inr (m1, Some f1) \<and>
     step m1 f1 = Inr (False, m2, f2) \<and>
     step m2 f2 = Inr (False, m3, f3) \<and>
     maze_selected ''A#B'' (Some f3) = Inr (m4, Some f3) \<and>
     solve_selected Greedy m4 (Some f3) = Inr (m5, Some f5) \<and>
     step m5 f5 = Inr (False, m6, f6) \<and>
     step m6 f6 = Inr (True, m7, f7) \<and>
     solution m7 = Some ([Some ''right'', Some ''right''], [(0, 1), (0, 2)]) \<and>
     wall_at m7 0 1 = Inr True \<and>
     \<not> valid_solution m7 ([Some ''right'', Some ''right''], [(0, 1), (0, 2)])"
  by (simp add: corridor_maze_init blocked_maze_init corridor_maze_def blocked_maze_def
      solve_selected_def maze_selected_def solve_greedy_def GreedyFrontier_init_def
      solve_final_def step_def neighbors_def wall_at_def py_index_def Let_def
      valid_solution_def in_bounds_def)

theorem reused_frontier_invalid_solution_witness:
  "count_list ''A B'' CHR ''A'' = 1 \<and> count_list ''A B'' CHR ''B'' = 1 \<and>
   count_list ''A#B'' CHR ''A'' = 1 \<and> count_list ''A#B'' CHR ''B'' = 1 \<and>
   (\<exists>m0 m1 f1 m2 f2 m3 f3 m4 m5 f5 m6 f6 m7 f7.
     maze_init ''A B'' = Inr m0 \<and>
     solve_selected Profundidad m0 None = Inr (m1, Some f1) \<and>
     step m1 f1 = Inr (False, m2, f2) \<and>
     step m2 f2 = Inr (False, m3, f3) \<and>
     maze_selected ''A#B'' (Some f3) = Inr (m4, Some f3) \<and>
     solve_selected Greedy m4 (Some f3) = Inr (m5, Some f5) \<and>
     step m5 f5 = Inr (False, m6, f6) \<and>
     step m6 f6 = Inr (True, m7, f7) \<and>
     solution m7 = Some ([Some ''right'', Some ''right''], [(0, 1), (0, 2)]) \<and>
     wall_at m7 0 1 = Inr True \<and>
     \<not> valid_solution m7 ([Some ''right'', Some ''right''], [(0, 1), (0, 2)]))"
proof -
  have "count_list ''A B'' CHR ''A'' = 1 \<and> count_list ''A B'' CHR ''B'' = 1 \<and>
        count_list ''A#B'' CHR ''A'' = 1 \<and> count_list ''A#B'' CHR ''B'' = 1"
    by simp
  with reused_frontier_invalid_solution show ?thesis by blast
qed

section \<open>The A* cost map\<close>












text \<open>
  It is the search that keeps a recorded cost from being revised, by never inserting a
  state that is in the frontier or explored: \<^verbatim>\<open>add\<close> itself compares no costs. Called
  by hand on a frontier made by \<^verbatim>\<open>AStarFrontier((0, 0), (0, 3))\<close>, with a parentless node
  at (0, 0), a child of it at (0, 1), a child of that one at (0, 2), and then a second
  node at (0, 2) whose parent is the node at (0, 0), it records 2 and then 1 for (0, 2).
\<close>

lemma astar_add_overwrites:
  "recorded_g (adds (AStarFrontier_init (0, 0) (0, 3))
      [Node (0, 0) None None,
       Node (0, 1) (Some (Node (0, 0) None None)) (Some ''right''),
       Node (0, 2) (Some (Node (0, 1) (Some (Node (0, 0) None None)) (Some ''right''))) (Some ''right'')])
     (0, 2) = Some 2
   \<and> recorded_g (adds (AStarFrontier_init (0, 0) (0, 3))
      [Node (0, 0) None None,
       Node (0, 1) (Some (Node (0, 0) None None)) (Some ''right''),
       Node (0, 2) (Some (Node (0, 1) (Some (Node (0, 0) None None)) (Some ''right''))) (Some ''right''),
       Node (0, 2) (Some (Node (0, 0) None None)) (Some ''right'')])
     (0, 2) = Some 1"
  by (simp add: AStarFrontier_init_def manhattan_def recorded_g_def g_costs_def)

end
